theory Spec2Isabelle
  imports Complex_Main "HOL-Library.AList"
begin

section \<open>Data model\<close>

text \<open>
  The repository holds two tracers of the same shape, \<^verbatim>\<open>eth_track.py\<close> (Etherscan) and
  \<^verbatim>\<open>xrp_track.py\<close> (XRPScan). Both are embedded; names of the first carry the prefix
  \<open>eth_\<close>, names of the second the prefix \<open>xrp_\<close>.

  Accounts are Python strings. Python's unbounded integers are \<open>int\<close>. Amounts are Python
  floats; they are embedded as \<open>real\<close>, so rounding is not modelled. The only test on an
  amount, \<^verbatim>\<open>amount > 0.0000\<close>, is exact on floats for the integer wei values of the
  ledger. Time stamps are compared as instants on a linear scale (\<open>int\<close>); the parsing of
  a date string into a \<^verbatim>\<open>datetime\<close> is not modelled.
\<close>

type_synonym account = string

datatype error =
    HTTPError int
  | RequestException
  | MaxRetriesExceeded
  | KeyError account
  | ValueError
  | IndexError

text \<open>
  A Python \<^verbatim>\<open>dict\<close> keeps its keys in insertion order, and the layout pass depends on
  that order. It is an association list: \<^const>\<open>AList.update\<close> overwrites the value of a
  present key in place and appends an absent key at the end, as item assignment does.
\<close>

type_synonym levels = "(account \<times> int) list"

definition keys :: "('k \<times> 'v) list \<Rightarrow> 'k set" where
  "keys d = fst ` set d"

text \<open>One HTTP exchange: a response with its status code and decoded body, or an exception
  of \<^verbatim>\<open>requests\<close> that is not an \<^verbatim>\<open>HTTPError\<close> (time-out, connection failure).\<close>

datatype 'b response = Response int 'b | NoResponse

text \<open>\<^verbatim>\<open>response.raise_for_status()\<close> raises for the codes 400 to 599.\<close>

definition raises_for_status :: "int \<Rightarrow> bool" where
  "raises_for_status code \<longleftrightarrow> 400 \<le> code \<and> code < 600"

text \<open>What one call of \<^verbatim>\<open>get_transactions\<close> did: its result, the seconds of every
  \<^verbatim>\<open>time.sleep\<close> in order, and the number of requests sent.\<close>

record 'b fetched =
  outcome :: "error + 'b"
  sleeps :: "nat list"
  requests :: nat

text \<open>The state the recursion of \<^verbatim>\<open>trace_transactions\<close> shares through its mutable
  arguments \<^verbatim>\<open>traced\<close> and \<^verbatim>\<open>node_levels\<close>. The field \<open>fetches\<close> is a ghost log:
  the accounts \<^verbatim>\<open>fetch_all_transactions\<close> was called for, each with the depth of the
  call, in order.\<close>

record tstate =
  traced :: "account set"
  node_levels :: levels
  fetches :: "(account \<times> int) list"

text \<open>A \<^verbatim>\<open>networkx.DiGraph\<close>: the nodes in insertion order, the node attribute
  \<^verbatim>\<open>subset_key\<close>, and the edge attribute \<^verbatim>\<open>weight\<close> of every edge.\<close>

record graph =
  nodes :: "account list"
  subset_key :: "account \<rightharpoonup> int"
  edges :: "(account \<times> account) \<rightharpoonup> real"

definition empty_graph :: graph where
  "empty_graph = \<lparr>nodes = [], subset_key = Map.empty, edges = Map.empty\<rparr>"

definition add_node :: "account \<Rightarrow> account list \<Rightarrow> account list" where
  "add_node n ns = (if n \<in> set ns then ns else ns @ [n])"

text \<open>\<^verbatim>\<open>G.add_edge(u, v, weight=w)\<close>: both end points become nodes, and the weight of
  the edge is set, replacing the weight of an edge that is already there.\<close>

definition add_edge :: "account \<Rightarrow> account \<Rightarrow> real \<Rightarrow> graph \<Rightarrow> graph" where
  "add_edge u v w G =
     G\<lparr>nodes := add_node v (add_node u (nodes G)), edges := (edges G)((u, v) \<mapsto> w)\<rparr>"

definition set_subset_key :: "account \<Rightarrow> int \<Rightarrow> graph \<Rightarrow> graph" where
  "set_subset_key n l G = G\<lparr>subset_key := (subset_key G)(n \<mapsto> l)\<rparr>"

section \<open>eth\_track.py\<close>

text \<open>A transaction record of Etherscan's \<^verbatim>\<open>txlist\<close>, with the fields the program reads:
  \<^verbatim>\<open>from\<close>, \<^verbatim>\<open>to\<close>, \<^verbatim>\<open>value\<close> (wei), \<^verbatim>\<open>timeStamp\<close> and \<^verbatim>\<open>hash\<close>.\<close>

record eth_txn =
  tx_from :: account
  tx_to :: account
  tx_value :: int
  tx_timeStamp :: int
  tx_hash :: string

record eth_json =
  status :: string
  result :: "eth_txn list"

text \<open>The Etherscan server: for an account and a page, the responses to the first, second,
  ... request.\<close>

type_synonym eth_net = "account \<Rightarrow> int \<Rightarrow> nat \<Rightarrow> eth_json response"

text \<open>\<^verbatim>\<open>float(txn['value']) / 1e18\<close>\<close>

definition eth_amount :: "eth_txn \<Rightarrow> real" where
  "eth_amount txn = real_of_int (tx_value txn) / 10 ^ 18"

text \<open>The loop of \<^verbatim>\<open>get_transactions\<close> (lines 29 to 36). It has no exit but a response
  other than 429, so it is a partial function: \<open>None\<close> is the loop that never ends.\<close>

partial_function (option) eth_get_loop ::
  "(nat \<Rightarrow> eth_json response) \<Rightarrow> nat \<Rightarrow> nat list \<Rightarrow> eth_json fetched option" where
  "eth_get_loop rs i sl =
     (case rs i of
        NoResponse \<Rightarrow> Some \<lparr>outcome = Inl RequestException, sleeps = sl, requests = Suc i\<rparr>
      | Response code body \<Rightarrow>
          if code = 429 then eth_get_loop rs (Suc i) (sl @ [60])
          else if raises_for_status code
            then Some \<lparr>outcome = Inl (HTTPError code), sleeps = sl, requests = Suc i\<rparr>
            else Some \<lparr>outcome = Inr body, sleeps = sl, requests = Suc i\<rparr>)"

definition eth_get_transactions :: "eth_net \<Rightarrow> account \<Rightarrow> int \<Rightarrow> eth_json fetched option" where
  "eth_get_transactions net account page = eth_get_loop (net account page) 0 []"

text \<open>The test of line 51 on one transaction of a page.\<close>

definition eth_accept :: "int \<Rightarrow> int \<Rightarrow> eth_txn \<Rightarrow> bool" where
  "eth_accept start_datetime end_datetime txn \<longleftrightarrow>
     start_datetime \<le> tx_timeStamp txn \<and> tx_timeStamp txn \<le> end_datetime \<and> eth_amount txn > 0"

text \<open>The page loop of \<^verbatim>\<open>fetch_all_transactions\<close> (lines 43 to 56); it ends at a page
  with status \<^verbatim>\<open>'0'\<close> or with fewer than 10000 records, and may run for ever.\<close>

partial_function (option) eth_fetch_pages ::
  "eth_net \<Rightarrow> account \<Rightarrow> int \<Rightarrow> int \<Rightarrow> int \<Rightarrow> eth_txn list \<Rightarrow> (error + eth_txn list) option" where
  "eth_fetch_pages net account start_datetime end_datetime page transactions =
     (case eth_get_transactions net account page of
        None \<Rightarrow> None
      | Some r \<Rightarrow>
          (case outcome r of
             Inl err \<Rightarrow> Some (Inl err)
           | Inr data \<Rightarrow>
               if status data = ''0'' then Some (Inr transactions)
               else
                 let transactions' =
                       transactions @ filter (eth_accept start_datetime end_datetime) (result data)
                 in if length (result data) < 10000 then Some (Inr transactions')
                    else eth_fetch_pages net account start_datetime end_datetime (page + 1)
                           transactions'))"

definition eth_fetch_all_transactions ::
  "eth_net \<Rightarrow> account \<Rightarrow> int \<Rightarrow> int \<Rightarrow> int \<Rightarrow> int \<Rightarrow> (error + eth_txn list) option" where
  "eth_fetch_all_transactions net account start_datetime end_datetime depth max_depth =
     eth_fetch_pages net account start_datetime end_datetime 1 []"

text \<open>\<^verbatim>\<open>trace_transactions\<close> (lines 61 to 81) and its loop over the fetched transactions
  (lines 71 to 79), which calls it again. The loop carries the transactions still to visit,
  the local list \<^verbatim>\<open>all_transactions\<close> and the shared state. An exception of the fetch
  leaves the function at once, with the state as mutated so far.\<close>

function eth_trace_transactions ::
    "eth_net \<Rightarrow> account \<Rightarrow> int \<Rightarrow> int \<Rightarrow> int \<Rightarrow> int \<Rightarrow> tstate
      \<Rightarrow> ((error + eth_txn list) \<times> tstate) option"
  and eth_trace_loop ::
    "eth_net \<Rightarrow> int \<Rightarrow> int \<Rightarrow> int \<Rightarrow> int \<Rightarrow> eth_txn list \<Rightarrow> eth_txn list \<Rightarrow> tstate
      \<Rightarrow> ((error + eth_txn list) \<times> tstate) option"
where
  "eth_trace_transactions net account start_datetime end_datetime depth max_depth st =
     (if depth > max_depth \<or> account \<in> traced st then Some (Inr [], st)
      else
        let st1 = st\<lparr>traced := insert account (traced st),
                     fetches := fetches st @ [(account, depth)]\<rparr>
        in case eth_fetch_all_transactions net account start_datetime end_datetime depth max_depth of
             None \<Rightarrow> None
           | Some (Inl err) \<Rightarrow> Some (Inl err, st1)
           | Some (Inr transactions) \<Rightarrow>
               eth_trace_loop net start_datetime end_datetime depth max_depth transactions [] st1)"
| "eth_trace_loop net start_datetime end_datetime depth max_depth [] all_transactions st =
     Some (Inr all_transactions, st)"
| "eth_trace_loop net start_datetime end_datetime depth max_depth (txn # rest) all_transactions st =
     (let destination = tx_to txn; amount = eth_amount txn
      in if destination \<noteq> [] \<and> destination \<notin> traced st \<and> amount > 0 then
           let st1 = st\<lparr>node_levels := AList.update destination (depth + 1) (node_levels st)\<rparr>
           in case eth_trace_transactions net destination start_datetime end_datetime (depth + 1)
                     max_depth st1 of
                None \<Rightarrow> None
              | Some (Inl err, st2) \<Rightarrow> Some (Inl err, st2)
              | Some (Inr sub, st2) \<Rightarrow>
                  eth_trace_loop net start_datetime end_datetime depth max_depth rest
                    (all_transactions @ [txn] @ sub) st2
         else eth_trace_loop net start_datetime end_datetime depth max_depth rest
                all_transactions st)"
  by pat_completeness auto
termination
  by (relation "inv_image (less_than <*lex*> less_than)
        (\<lambda>x. case x of
           Inl (net, account, sd, ed, depth, max_depth, st) \<Rightarrow> (nat (max_depth + 2 - depth), 0)
         | Inr (net, sd, ed, depth, max_depth, txns, acc, st) \<Rightarrow>
             (nat (max_depth + 1 - depth), Suc (length txns)))")
    auto

text \<open>\<^verbatim>\<open>build_graph\<close> (lines 84 to 96). The dictionary \<^verbatim>\<open>node_levels\<close> is mutated in
  place, so the function returns it with the graph. \<^verbatim>\<open>node_levels[destination]\<close> raises
  \<^verbatim>\<open>KeyError\<close> for a destination without a level.\<close>

fun eth_build_loop :: "eth_txn list \<Rightarrow> graph \<Rightarrow> levels \<Rightarrow> error + graph \<times> levels" where
  "eth_build_loop [] G levels0 = Inr (G, levels0)"
| "eth_build_loop (txn # rest) G levels0 =
     (let source = tx_from txn; destination = tx_to txn; amount = eth_amount txn;
          G1 = add_edge source destination amount G;
          levels1 = (if source \<notin> keys levels0
                          then AList.update source 0 levels0 else levels0)
      in case map_of levels1 source of
           None \<Rightarrow> Inl (KeyError source)
         | Some ls \<Rightarrow>
             (case map_of levels1 destination of
                None \<Rightarrow> Inl (KeyError destination)
              | Some ld \<Rightarrow>
                  eth_build_loop rest
                    (set_subset_key destination ld (set_subset_key source ls G1)) levels1))"

definition eth_build_graph :: "eth_txn list \<Rightarrow> levels \<Rightarrow> error + graph \<times> levels" where
  "eth_build_graph transactions levels0 = eth_build_loop transactions empty_graph levels0"

section \<open>The layout pass of visualize\_graph\<close>

text \<open>The two files have the same text for the layout pass (\<^verbatim>\<open>eth_track.py\<close> lines 104 to
  126, \<^verbatim>\<open>xrp_track.py\<close> lines 90 to 112); only \<^verbatim>\<open>eth_track.py\<close> goes on to place the
  nodes that are left (lines 128 to 130). Coordinates are \<open>real\<close>. The draws of
  \<^verbatim>\<open>random.uniform(a, b)\<close> are a parameter: \<open>rnd k a b\<close> is the draw number \<open>k\<close>.\<close>

type_synonym positions = "(account \<times> real \<times> real) list"

text \<open>Lines 109 to 112: the nodes of each level, in the order of the dictionary.\<close>

fun group_levels :: "levels \<Rightarrow> (int \<times> account list) list \<Rightarrow> (int \<times> account list) list" where
  "group_levels [] level_nodes = level_nodes"
| "group_levels ((node, level) # rest) level_nodes =
     group_levels rest
       (AList.update level
          ((case map_of level_nodes level of None \<Rightarrow> [] | Some ns \<Rightarrow> ns) @ [node]) level_nodes)"

text \<open>The sort key of line 119: the sum of the weights of the edges into a node.\<close>

definition inbound_weight :: "graph \<Rightarrow> account \<Rightarrow> real" where
  "inbound_weight G node =
     sum_list (map (\<lambda>u. case edges G (u, node) of None \<Rightarrow> 0 | Some w \<Rightarrow> w) (nodes G))"

text \<open>Lines 120 and 121: \<^verbatim>\<open>pos[node] = (level, -i)\<close> for the nodes of a level in order.\<close>

fun place_ranked :: "int \<Rightarrow> account list \<Rightarrow> int \<Rightarrow> positions \<Rightarrow> positions" where
  "place_ranked level [] i pos = pos"
| "place_ranked level (node # rest) i pos =
     place_ranked level rest (i + 1)
       (AList.update node (real_of_int level, - real_of_int i) pos)"

text \<open>Lines 115 to 121. \<^verbatim>\<open>nodes.sort(key=..., reverse=True)\<close> is a stable sort by
  descending key, which is the stable sort by the negated key.\<close>

fun place_levels :: "graph \<Rightarrow> (int \<times> account list) list \<Rightarrow> positions \<Rightarrow> error + positions" where
  "place_levels G [] pos = Inr pos"
| "place_levels G ((level, ns) # rest) pos =
     (if level = 0 then
        (case ns of
           [] \<Rightarrow> Inl IndexError
         | n # _ \<Rightarrow> place_levels G rest (AList.update n (0, 0) pos))
      else place_levels G rest
             (place_ranked level (sort_key (\<lambda>n. - inbound_weight G n) ns) 0 pos))"

definition layout_pass :: "graph \<Rightarrow> levels \<Rightarrow> error + positions" where
  "layout_pass G levels0 = place_levels G (group_levels levels0 []) []"

text \<open>Lines 124 to 126: the jitter.\<close>

fun perturb :: "(nat \<Rightarrow> real \<Rightarrow> real \<Rightarrow> real) \<Rightarrow> nat \<Rightarrow> positions \<Rightarrow> positions" where
  "perturb rnd k [] = []"
| "perturb rnd k ((node, x, y) # rest) =
     (node, x + rnd k (- 0.05) 0.05, y + rnd (Suc k) (- 0.05) 0.05) # perturb rnd (k + 2) rest"

text \<open>\<^verbatim>\<open>eth_track.py\<close>, line 128: the nodes of the graph that have no position yet.\<close>

definition remaining_nodes :: "graph \<Rightarrow> positions \<Rightarrow> account list" where
  "remaining_nodes G pos = filter (\<lambda>n. n \<notin> keys pos) (nodes G)"

text \<open>\<^verbatim>\<open>eth_track.py\<close>, lines 129 and 130: a random position for each of them.\<close>

fun place_remaining ::
  "(nat \<Rightarrow> real \<Rightarrow> real \<Rightarrow> real) \<Rightarrow> nat \<Rightarrow> int \<Rightarrow> graph \<Rightarrow> account list \<Rightarrow> positions \<Rightarrow> positions" where
  "place_remaining rnd k max_depth G [] pos = pos"
| "place_remaining rnd k max_depth G (node # rest) pos =
     place_remaining rnd (k + 2) max_depth G rest
       (AList.update node
          (rnd k 0 (real_of_int (max_depth + 1)),
           rnd (Suc k) (- real (length (nodes G)) / 2) (real (length (nodes G)) / 2)) pos)"

text \<open>The positions \<^verbatim>\<open>visualize_graph\<close> hands to the renderer. \<^verbatim>\<open>max\<close> of an empty
  dictionary raises \<^verbatim>\<open>ValueError\<close>.\<close>

definition eth_visualize_pos ::
  "(nat \<Rightarrow> real \<Rightarrow> real \<Rightarrow> real) \<Rightarrow> graph \<Rightarrow> levels \<Rightarrow> error + positions" where
  "eth_visualize_pos rnd G levels0 =
     (if levels0 = [] then Inl ValueError
      else
        let max_depth = Max (set (map snd levels0))
        in case layout_pass G levels0 of
             Inl err \<Rightarrow> Inl err
           | Inr pos \<Rightarrow>
               let pos1 = perturb rnd 0 pos
               in Inr (place_remaining rnd (2 * length pos1) max_depth G
                         (remaining_nodes G pos1) pos1))"

definition xrp_visualize_pos ::
  "(nat \<Rightarrow> real \<Rightarrow> real \<Rightarrow> real) \<Rightarrow> graph \<Rightarrow> levels \<Rightarrow> error + positions" where
  "xrp_visualize_pos rnd G levels0 =
     (if levels0 = [] then Inl ValueError
      else
        case layout_pass G levels0 of
          Inl err \<Rightarrow> Inl err
        | Inr pos \<Rightarrow> Inr (perturb rnd 0 pos))"

text \<open>Lines 135 and 136 of \<^verbatim>\<open>eth_track.py\<close>, 117 and 118 of \<^verbatim>\<open>xrp_track.py\<close>:
  \<^verbatim>\<open>node_levels[node]\<close> for every node of the graph.\<close>

fun node_level_lookups :: "account list \<Rightarrow> levels \<Rightarrow> error + int list" where
  "node_level_lookups [] levels0 = Inr []"
| "node_level_lookups (node # rest) levels0 =
     (case map_of levels0 node of
        None \<Rightarrow> Inl (KeyError node)
      | Some level \<Rightarrow>
          (case node_level_lookups rest levels0 of
             Inl err \<Rightarrow> Inl err
           | Inr ls \<Rightarrow> Inr (level # ls)))"

section \<open>xrp\_track.py\<close>

text \<open>A transaction record of XRPScan with the fields the program reads: \<^verbatim>\<open>Account\<close>,
  \<^verbatim>\<open>Destination\<close> and \<^verbatim>\<open>Amount\<close> (both may be absent; of \<^verbatim>\<open>Amount\<close> the program
  reads the entry \<^verbatim>\<open>value\<close>) and \<^verbatim>\<open>date\<close>.\<close>

record xrp_txn =
  tx_Account :: account
  tx_Destination :: "account option"
  tx_Amount :: "real option"
  tx_date :: int

record xrp_json =
  transactions :: "xrp_txn list"
  marker :: "string option"

text \<open>The XRPScan server: for an account and the marker sent (\<open>None\<close> when the request has
  no marker), the responses to the first, second, ... request.\<close>

type_synonym xrp_net = "account \<Rightarrow> string option \<Rightarrow> nat \<Rightarrow> xrp_json response"

text \<open>Line 12: a marker that is \<^verbatim>\<open>None\<close> or empty is not sent.\<close>

definition sent_marker :: "string option \<Rightarrow> string option" where
  "sent_marker m = (case m of None \<Rightarrow> None | Some s \<Rightarrow> if s = [] then None else Some s)"

text \<open>The loop of \<^verbatim>\<open>get_transactions\<close> (lines 13 to 30). A response 429 leaves
  \<^verbatim>\<open>attempt\<close> as it is, so the loop may run for ever.\<close>

partial_function (option) xrp_get_loop ::
  "(nat \<Rightarrow> xrp_json response) \<Rightarrow> int \<Rightarrow> nat \<Rightarrow> int \<Rightarrow> nat list \<Rightarrow> xrp_json fetched option" where
  "xrp_get_loop rs retries i attempt sl =
     (if attempt < retries then
        (case rs i of
           NoResponse \<Rightarrow> Some \<lparr>outcome = Inl RequestException, sleeps = sl, requests = Suc i\<rparr>
         | Response code body \<Rightarrow>
             if code = 429 then xrp_get_loop rs retries (Suc i) attempt (sl @ [60])
             else if raises_for_status code then
               (if code = 504 then xrp_get_loop rs retries (Suc i) (attempt + 1) (sl @ [30])
                else Some \<lparr>outcome = Inl (HTTPError code), sleeps = sl, requests = Suc i\<rparr>)
             else Some \<lparr>outcome = Inr body, sleeps = sl, requests = Suc i\<rparr>)
      else Some \<lparr>outcome = Inl MaxRetriesExceeded, sleeps = sl, requests = i\<rparr>)"

definition xrp_get_transactions ::
  "xrp_net \<Rightarrow> account \<Rightarrow> string option \<Rightarrow> int \<Rightarrow> xrp_json fetched option" where
  "xrp_get_transactions net account mk retries =
     xrp_get_loop (net account (sent_marker mk)) retries 0 0 []"

text \<open>The test of line 40 on one transaction of a page.\<close>

definition xrp_accept :: "int \<Rightarrow> int \<Rightarrow> xrp_txn \<Rightarrow> bool" where
  "xrp_accept start_datetime end_datetime txn \<longleftrightarrow>
     start_datetime \<le> tx_date txn \<and> tx_date txn \<le> end_datetime"

text \<open>The page loop of \<^verbatim>\<open>fetch_all_transactions\<close> (lines 36 to 45). It calls
  \<^verbatim>\<open>get_transactions\<close> with the default \<^verbatim>\<open>retries=5\<close>, and goes on to the next page
  while the page has a marker and \<^verbatim>\<open>depth < max_depth\<close>.\<close>

partial_function (option) xrp_fetch_pages ::
  "xrp_net \<Rightarrow> account \<Rightarrow> int \<Rightarrow> int \<Rightarrow> int \<Rightarrow> int \<Rightarrow> string option \<Rightarrow> xrp_txn list
    \<Rightarrow> (error + xrp_txn list) option" where
  "xrp_fetch_pages net account start_datetime end_datetime depth max_depth mk txns =
     (case xrp_get_transactions net account mk 5 of
        None \<Rightarrow> None
      | Some r \<Rightarrow>
          (case outcome r of
             Inl err \<Rightarrow> Some (Inl err)
           | Inr data \<Rightarrow>
               let txns' = txns @ filter (xrp_accept start_datetime end_datetime) (transactions data)
               in if marker data \<noteq> None \<and> depth < max_depth
                  then xrp_fetch_pages net account start_datetime end_datetime depth max_depth
                         (marker data) txns'
                  else Some (Inr txns')))"

definition xrp_fetch_all_transactions ::
  "xrp_net \<Rightarrow> account \<Rightarrow> int \<Rightarrow> int \<Rightarrow> int \<Rightarrow> int \<Rightarrow> (error + xrp_txn list) option" where
  "xrp_fetch_all_transactions net account start_datetime end_datetime depth max_depth =
     xrp_fetch_pages net account start_datetime end_datetime depth max_depth None []"

text \<open>\<^verbatim>\<open>trace_transactions\<close> (lines 49 to 67) and its loop (lines 59 to 65).\<close>

function xrp_trace_transactions ::
    "xrp_net \<Rightarrow> account \<Rightarrow> int \<Rightarrow> int \<Rightarrow> int \<Rightarrow> int \<Rightarrow> tstate
      \<Rightarrow> ((error + xrp_txn list) \<times> tstate) option"
  and xrp_trace_loop ::
    "xrp_net \<Rightarrow> int \<Rightarrow> int \<Rightarrow> int \<Rightarrow> int \<Rightarrow> xrp_txn list \<Rightarrow> xrp_txn list \<Rightarrow> tstate
      \<Rightarrow> ((error + xrp_txn list) \<times> tstate) option"
where
  "xrp_trace_transactions net account start_datetime end_datetime depth max_depth st =
     (if depth > max_depth \<or> account \<in> traced st then Some (Inr [], st)
      else
        let st1 = st\<lparr>traced := insert account (traced st),
                     fetches := fetches st @ [(account, depth)]\<rparr>
        in case xrp_fetch_all_transactions net account start_datetime end_datetime depth max_depth of
             None \<Rightarrow> None
           | Some (Inl err) \<Rightarrow> Some (Inl err, st1)
           | Some (Inr txns) \<Rightarrow>
               xrp_trace_loop net start_datetime end_datetime depth max_depth txns [] st1)"
| "xrp_trace_loop net start_datetime end_datetime depth max_depth [] all_transactions st =
     Some (Inr all_transactions, st)"
| "xrp_trace_loop net start_datetime end_datetime depth max_depth (txn # rest) all_transactions st =
     (case (tx_Destination txn, tx_Amount txn) of
        (Some destination, Some amount) \<Rightarrow>
          if destination \<notin> traced st then
            let st1 = st\<lparr>node_levels := AList.update destination (depth + 1) (node_levels st)\<rparr>
            in case xrp_trace_transactions net destination start_datetime end_datetime
                      (depth + 1) max_depth st1 of
                 None \<Rightarrow> None
               | Some (Inl err, st2) \<Rightarrow> Some (Inl err, st2)
               | Some (Inr sub, st2) \<Rightarrow>
                   xrp_trace_loop net start_datetime end_datetime depth max_depth rest
                     (all_transactions @ [txn] @ sub) st2
          else xrp_trace_loop net start_datetime end_datetime depth max_depth rest
                 all_transactions st
      | _ \<Rightarrow> xrp_trace_loop net start_datetime end_datetime depth max_depth rest
               all_transactions st)"
  by pat_completeness auto
termination
  by (relation "inv_image (less_than <*lex*> less_than)
        (\<lambda>x. case x of
           Inl (net, account, sd, ed, depth, max_depth, st) \<Rightarrow> (nat (max_depth + 2 - depth), 0)
         | Inr (net, sd, ed, depth, max_depth, txns, acc, st) \<Rightarrow>
             (nat (max_depth + 1 - depth), Suc (length txns)))")
    auto

text \<open>\<^verbatim>\<open>float(amount) / 1_000_000\<close>\<close>

definition xrp_amount :: "real \<Rightarrow> real" where
  "xrp_amount v = v / 1000000"

text \<open>\<^verbatim>\<open>build_graph\<close> (lines 70 to 83).\<close>

fun xrp_build_loop :: "xrp_txn list \<Rightarrow> graph \<Rightarrow> levels \<Rightarrow> error + graph \<times> levels" where
  "xrp_build_loop [] G levels0 = Inr (G, levels0)"
| "xrp_build_loop (txn # rest) G levels0 =
     (let source = tx_Account txn
      in case (tx_Destination txn, tx_Amount txn) of
           (Some destination, Some amount) \<Rightarrow>
             (let G1 = add_edge source destination (xrp_amount amount) G;
                  levels1 = (if source \<notin> keys levels0
                             then AList.update source 0 levels0 else levels0)
              in case map_of levels1 source of
                   None \<Rightarrow> Inl (KeyError source)
                 | Some ls \<Rightarrow>
                     (case map_of levels1 destination of
                        None \<Rightarrow> Inl (KeyError destination)
                      | Some ld \<Rightarrow>
                          xrp_build_loop rest
                            (set_subset_key destination ld (set_subset_key source ls G1))
                            levels1))
         | _ \<Rightarrow> xrp_build_loop rest G levels0)"

definition xrp_build_graph :: "xrp_txn list \<Rightarrow> levels \<Rightarrow> error + graph \<times> levels" where
  "xrp_build_graph txns levels0 = xrp_build_loop txns empty_graph levels0"

section \<open>Fixtures\<close>

text \<open>Transactions for the worked examples: source, destination, value and time.\<close>

definition eth_tx :: "account \<Rightarrow> account \<Rightarrow> int \<Rightarrow> int \<Rightarrow> eth_txn" where
  "eth_tx s d v t =
     \<lparr>tx_from = s, tx_to = d, tx_value = v, tx_timeStamp = t, tx_hash = s @ ''>'' @ d\<rparr>"

definition xrp_tx :: "account \<Rightarrow> account \<Rightarrow> real \<Rightarrow> int \<Rightarrow> xrp_txn" where
  "xrp_tx s d v t =
     \<lparr>tx_Account = s, tx_Destination = Some d, tx_Amount = Some v, tx_date = t\<rparr>"

text \<open>The scenario of the specification: the ledger holds the three transactions
  \<open>A \<rightarrow> B\<close> (amount 5), \<open>A \<rightarrow> C\<close> (amount 3) and \<open>B \<rightarrow> D\<close> (amount 1), all at time 1.
  The history of an account is the transactions it sends or receives, on one page; every
  request is answered at once with status 200.\<close>

definition eth_AB :: eth_txn where "eth_AB = eth_tx ''A'' ''B'' (5 * 10 ^ 18) 1"
definition eth_AC :: eth_txn where "eth_AC = eth_tx ''A'' ''C'' (3 * 10 ^ 18) 1"
definition eth_BD :: eth_txn where "eth_BD = eth_tx ''B'' ''D'' (1 * 10 ^ 18) 1"

definition eth_history :: "account \<Rightarrow> eth_txn list" where
  "eth_history account =
     (if account = ''A'' then [eth_AB, eth_AC]
      else if account = ''B'' then [eth_AB, eth_BD]
      else if account = ''C'' then [eth_AC]
      else if account = ''D'' then [eth_BD]
      else [])"

definition scenario_eth :: eth_net where
  "scenario_eth account page attempt =
     Response 200 \<lparr>status = ''1'', result = (if page = 1 then eth_history account else [])\<rparr>"

definition xrp_AB :: xrp_txn where "xrp_AB = xrp_tx ''A'' ''B'' 5000000 1"
definition xrp_AC :: xrp_txn where "xrp_AC = xrp_tx ''A'' ''C'' 3000000 1"
definition xrp_BD :: xrp_txn where "xrp_BD = xrp_tx ''B'' ''D'' 1000000 1"

definition xrp_history :: "account \<Rightarrow> xrp_txn list" where
  "xrp_history account =
     (if account = ''A'' then [xrp_AB, xrp_AC]
      else if account = ''B'' then [xrp_AB, xrp_BD]
      else if account = ''C'' then [xrp_AC]
      else if account = ''D'' then [xrp_BD]
      else [])"

definition scenario_xrp :: xrp_net where
  "scenario_xrp account mk attempt =
     Response 200 \<lparr>transactions = (if mk = None then xrp_history account else []),
                   marker = None\<rparr>"

text \<open>The state \<^verbatim>\<open>__main__\<close> starts a trace of \<open>origin\<close> with: \<^verbatim>\<open>traced\<close> is the empty
  default, \<^verbatim>\<open>node_levels\<close> is \<^verbatim>\<open>{origin: 0}\<close>.\<close>

definition initial_state :: "account \<Rightarrow> tstate" where
  "initial_state origin = \<lparr>traced = {}, node_levels = [(origin, 0)], fetches = []\<rparr>"

text \<open>What the two programs compute in the scenario with \<^verbatim>\<open>max_depth=1\<close>: the state
  the trace ends in, and the graph \<^verbatim>\<open>build_graph\<close> makes of the transactions returned.\<close>

definition scenario_final :: tstate where
  "scenario_final =
     \<lparr>traced = {''A'', ''B'', ''C''},
      node_levels = [(''A'', 0), (''B'', 1), (''D'', 2), (''C'', 1)],
      fetches = [(''A'', 0), (''B'', 1), (''C'', 1)]\<rparr>"

definition scenario_graph :: graph where
  "scenario_graph =
     \<lparr>nodes = [''A'', ''B'', ''D'', ''C''],
      subset_key = [''A'' \<mapsto> 0, ''B'' \<mapsto> 1, ''D'' \<mapsto> 2, ''C'' \<mapsto> 1],
      edges = [(''A'', ''B'') \<mapsto> 5, (''B'', ''D'') \<mapsto> 1, (''A'', ''C'') \<mapsto> 3]\<rparr>"









text \<open>An XRPScan server whose only record is a payment of amount 0 from \<open>A\<close> to \<open>B\<close>
  at time 1, with the state the trace of \<open>A\<close> ends in and the graph built.\<close>

definition xrp_zero :: xrp_net where
  "xrp_zero account mk attempt =
     Response 200
       \<lparr>transactions = (if account = ''A'' \<and> mk = None then [xrp_tx ''A'' ''B'' 0 1] else []),
        marker = None\<rparr>"

definition xrp_zero_final :: tstate where
  "xrp_zero_final =
     \<lparr>traced = {''A'', ''B''}, node_levels = [(''A'', 0), (''B'', 1)],
      fetches = [(''A'', 0), (''B'', 1)]\<rparr>"

definition xrp_zero_graph :: graph where
  "xrp_zero_graph =
     \<lparr>nodes = [''A'', ''B''], subset_key = [''A'' \<mapsto> 0, ''B'' \<mapsto> 1],
      edges = [(''A'', ''B'') \<mapsto> 0]\<rparr>"

text \<open>A ledger on which \<open>D\<close> is reached twice: \<open>A \<rightarrow> B\<close>, \<open>A \<rightarrow> D\<close> and \<open>B \<rightarrow> D\<close>,
  all at time 1. With \<^verbatim>\<open>max_depth=1\<close> the tracer meets \<open>D\<close> first below \<open>B\<close>, two hops
  from \<open>A\<close>, and then as a destination of \<open>A\<close> itself.\<close>

definition eth_AD :: eth_txn where "eth_AD = eth_tx ''A'' ''D'' (2 * 10 ^ 18) 1"

definition xrp_AD :: xrp_txn where "xrp_AD = xrp_tx ''A'' ''D'' 2000000 1"

definition revisit_eth :: eth_net where
  "revisit_eth account page attempt =
     Response 200
       \<lparr>status = ''1'',
        result = (if page \<noteq> 1 then []
                  else if account = ''A'' then [eth_AB, eth_AD]
                  else if account = ''B'' then [eth_AB, eth_BD]
                  else if account = ''D'' then [eth_AD, eth_BD]
                  else [])\<rparr>"

definition revisit_xrp :: xrp_net where
  "revisit_xrp account mk attempt =
     Response 200
       \<lparr>transactions = (if mk \<noteq> None then []
                        else if account = ''A'' then [xrp_AB, xrp_AD]
                        else if account = ''B'' then [xrp_AB, xrp_BD]
                        else if account = ''D'' then [xrp_AD, xrp_BD]
                        else []),
        marker = None\<rparr>"

text \<open>The state in which the loop of the call for \<open>A\<close> calls the tracer for \<open>B\<close>, the state
  that call returns, and the state the call for \<open>A\<close> returns.\<close>

definition revisit_before_B :: tstate where
  "revisit_before_B =
     \<lparr>traced = {''A''}, node_levels = [(''A'', 0), (''B'', 1)], fetches = [(''A'', 0)]\<rparr>"

definition revisit_after_B :: tstate where
  "revisit_after_B =
     \<lparr>traced = {''A'', ''B''}, node_levels = [(''A'', 0), (''B'', 1), (''D'', 2)],
      fetches = [(''A'', 0), (''B'', 1)]\<rparr>"

definition revisit_final :: tstate where
  "revisit_final =
     \<lparr>traced = {''A'', ''B'', ''D''}, node_levels = [(''A'', 0), (''B'', 1), (''D'', 1)],
      fetches = [(''A'', 0), (''B'', 1), (''D'', 1)]\<rparr>"

section \<open>The scheme of the two tracers\<close>

text \<open>The two functions \<^verbatim>\<open>trace_transactions\<close> differ in the fetch they call and in the
  test a fetched transaction has to pass before its destination is looked up in
  \<^verbatim>\<open>traced\<close>. \<open>trace_scheme\<close> is their common shape with these two as parameters:
  \<open>fetch account depth\<close> is the result of the fetch, and \<open>target txn\<close> is the destination
  of a transaction that passes the test. The properties of the shared state are proved for
  the scheme and carried over to the two tracers, which are shown to be instances.\<close>

function trace_scheme ::
    "(account \<Rightarrow> int \<Rightarrow> (error + 't list) option) \<Rightarrow> ('t \<Rightarrow> account option)
      \<Rightarrow> account \<Rightarrow> int \<Rightarrow> int \<Rightarrow> tstate \<Rightarrow> ((error + 't list) \<times> tstate) option"
  and loop_scheme ::
    "(account \<Rightarrow> int \<Rightarrow> (error + 't list) option) \<Rightarrow> ('t \<Rightarrow> account option)
      \<Rightarrow> int \<Rightarrow> int \<Rightarrow> 't list \<Rightarrow> 't list \<Rightarrow> tstate \<Rightarrow> ((error + 't list) \<times> tstate) option"
where
  "trace_scheme fetch target account depth max_depth st =
     (if depth > max_depth \<or> account \<in> traced st then Some (Inr [], st)
      else
        let st1 = st\<lparr>traced := insert account (traced st),
                     fetches := fetches st @ [(account, depth)]\<rparr>
        in case fetch account depth of
             None \<Rightarrow> None
           | Some (Inl err) \<Rightarrow> Some (Inl err, st1)
           | Some (Inr txns) \<Rightarrow> loop_scheme fetch target depth max_depth txns [] st1)"
| "loop_scheme fetch target depth max_depth [] all_transactions st =
     Some (Inr all_transactions, st)"
| "loop_scheme fetch target depth max_depth (txn # rest) all_transactions st =
     (case target txn of
        None \<Rightarrow> loop_scheme fetch target depth max_depth rest all_transactions st
      | Some destination \<Rightarrow>
          if destination \<notin> traced st then
            let st1 = st\<lparr>node_levels := AList.update destination (depth + 1) (node_levels st)\<rparr>
            in case trace_scheme fetch target destination (depth + 1) max_depth st1 of
                 None \<Rightarrow> None
               | Some (Inl err, st2) \<Rightarrow> Some (Inl err, st2)
               | Some (Inr sub, st2) \<Rightarrow>
                   loop_scheme fetch target depth max_depth rest
                     (all_transactions @ [txn] @ sub) st2
          else loop_scheme fetch target depth max_depth rest all_transactions st)"
  by pat_completeness auto
termination
  by (relation "inv_image (less_than <*lex*> less_than)
        (\<lambda>x. case x of
           Inl (fetch, target, account, depth, max_depth, st) \<Rightarrow>
             (nat (max_depth + 2 - depth), 0)
         | Inr (fetch, target, depth, max_depth, txns, acc, st) \<Rightarrow>
             (nat (max_depth + 1 - depth), Suc (length txns)))")
    auto

definition eth_target :: "eth_txn \<Rightarrow> account option" where
  "eth_target txn = (if tx_to txn \<noteq> [] \<and> eth_amount txn > 0 then Some (tx_to txn) else None)"

definition xrp_target :: "xrp_txn \<Rightarrow> account option" where
  "xrp_target txn =
     (case (tx_Destination txn, tx_Amount txn) of
        (Some destination, Some amount) \<Rightarrow> Some destination
      | _ \<Rightarrow> None)"

section \<open>Relations between the states before and after a call\<close>

text \<open>\<open>fetch_once s s'\<close>: the calls of \<^verbatim>\<open>fetch_all_transactions\<close> between \<open>s\<close> and
  \<open>s'\<close> are for different accounts, none of which was in \<^verbatim>\<open>traced\<close> at \<open>s\<close>, and
  all of which are in \<^verbatim>\<open>traced\<close> at \<open>s'\<close>.\<close>

definition fetch_once :: "tstate \<Rightarrow> tstate \<Rightarrow> bool" where
  "fetch_once s s' \<longleftrightarrow>
     (\<exists>new. fetches s' = fetches s @ new \<and> distinct (map fst new) \<and>
        fst ` set new \<inter> traced s = {} \<and> traced s' = traced s \<union> fst ` set new)"

text \<open>\<open>levels_kept s s'\<close>: \<^verbatim>\<open>traced\<close> and the keys of \<^verbatim>\<open>node_levels\<close> have only
  grown, and the accounts in \<^verbatim>\<open>traced\<close> at \<open>s\<close> have the level they had.\<close>

definition levels_kept :: "tstate \<Rightarrow> tstate \<Rightarrow> bool" where
  "levels_kept s s' \<longleftrightarrow>
     traced s \<subseteq> traced s' \<and> keys (node_levels s) \<subseteq> keys (node_levels s') \<and>
     (\<forall>a\<in>traced s. map_of (node_levels s') a = map_of (node_levels s) a)"

text \<open>\<open>accumulated fetch target s t\<close>: the transaction \<open>t\<close> is in the list some fetch
  returned, it passes the test of the loop, and its destination has a level at \<open>s\<close>.\<close>

definition accumulated ::
  "(account \<Rightarrow> int \<Rightarrow> (error + 't list) option) \<Rightarrow> ('t \<Rightarrow> account option) \<Rightarrow> tstate \<Rightarrow> 't \<Rightarrow> bool" where
  "accumulated fetch target s t \<longleftrightarrow>
     (\<exists>a d ftx. fetch a d = Some (Inr ftx) \<and> t \<in> set ftx) \<and>
     (\<exists>b. target t = Some b \<and> b \<in> keys (node_levels s))"

section \<open>Hop distance\<close>

text \<open>The graph the tracer walks: there is a hop from \<open>a\<close> to \<open>b\<close> when a fetch for \<open>a\<close>
  returns a transaction that passes the test of the loop and has the destination \<open>b\<close>.
  \<open>within_hops fetch target n a b\<close>: \<open>b\<close> is at most \<open>n\<close> hops from \<open>a\<close>; so the
  shortest distance from \<open>a\<close> to \<open>b\<close> is greater than \<open>n\<close> when it does not hold.\<close>

definition hop ::
  "(account \<Rightarrow> int \<Rightarrow> (error + 't list) option) \<Rightarrow> ('t \<Rightarrow> account option)
    \<Rightarrow> account \<Rightarrow> account \<Rightarrow> bool" where
  "hop fetch target a b \<longleftrightarrow>
     (\<exists>d txns t. fetch a d = Some (Inr txns) \<and> t \<in> set txns \<and> target t = Some b)"

fun within_hops ::
  "(account \<Rightarrow> int \<Rightarrow> (error + 't list) option) \<Rightarrow> ('t \<Rightarrow> account option)
    \<Rightarrow> nat \<Rightarrow> account \<Rightarrow> account \<Rightarrow> bool" where
  "within_hops fetch target 0 a b \<longleftrightarrow> a = b"
| "within_hops fetch target (Suc n) a b \<longleftrightarrow>
     a = b \<or> (\<exists>c. hop fetch target a c \<and> within_hops fetch target n c b)"




section \<open>A level map with two nodes of level 0\<close>

text \<open>The trace has given \<open>A\<close> the level 0 and \<open>C\<close> the level 1, and the list of
  transactions holds \<open>A \<rightarrow> C\<close> and a transaction \<open>B \<rightarrow> C\<close> whose source has no level.
  \<^verbatim>\<open>build_graph\<close> gives \<open>B\<close> the level 0, after \<open>A\<close> and \<open>C\<close> in the dictionary.\<close>

definition eth_BC :: eth_txn where "eth_BC = eth_tx ''B'' ''C'' (2 * 10 ^ 18) 1"
definition xrp_BC :: xrp_txn where "xrp_BC = xrp_tx ''B'' ''C'' 2000000 1"

definition unleveled_source :: levels where
  "unleveled_source = [(''A'', 0), (''C'', 1)]"

definition two_origins :: levels where
  "two_origins = [(''A'', 0), (''C'', 1), (''B'', 0)]"

definition two_origins_graph :: graph where
  "two_origins_graph =
     \<lparr>nodes = [''A'', ''C'', ''B''],
      subset_key = [''A'' \<mapsto> 0, ''C'' \<mapsto> 1, ''B'' \<mapsto> 0],
      edges = [(''A'', ''C'') \<mapsto> 3, (''B'', ''C'') \<mapsto> 2]\<rparr>"

section \<open>The tracers are instances of the scheme\<close>

lemma eth_trace_is_scheme:
  "eth_trace_transactions net account sd ed depth max_depth st =
     trace_scheme (\<lambda>a d. eth_fetch_all_transactions net a sd ed d max_depth) eth_target
       account depth max_depth st"
  "eth_trace_loop net sd ed depth max_depth txns acc st =
     loop_scheme (\<lambda>a d. eth_fetch_all_transactions net a sd ed d max_depth) eth_target
       depth max_depth txns acc st"
proof (induction net account sd ed depth max_depth st and net sd ed depth max_depth txns acc st
    rule: eth_trace_transactions_eth_trace_loop.induct)
  case (1 net account sd ed depth max_depth st)
  then show ?case
    by (auto simp: Let_def split: option.splits sum.splits)
next
  case (2 net sd ed depth max_depth acc st)
  show ?case by simp
next
  case (3 net sd ed depth max_depth txn rest acc st)
  then show ?case
    by (simp add: eth_target_def Let_def del: eth_trace_transactions.simps trace_scheme.simps split: option.splits sum.splits prod.splits)
qed

lemma xrp_trace_is_scheme:
  "xrp_trace_transactions net account sd ed depth max_depth st =
     trace_scheme (\<lambda>a d. xrp_fetch_all_transactions net a sd ed d max_depth) xrp_target
       account depth max_depth st"
  "xrp_trace_loop net sd ed depth max_depth txns acc st =
     loop_scheme (\<lambda>a d. xrp_fetch_all_transactions net a sd ed d max_depth) xrp_target
       depth max_depth txns acc st"
proof (induction net account sd ed depth max_depth st and net sd ed depth max_depth txns acc st
    rule: xrp_trace_transactions_xrp_trace_loop.induct)
  case (1 net account sd ed depth max_depth st)
  then show ?case
    by (auto simp: Let_def split: option.splits sum.splits)
next
  case (2 net sd ed depth max_depth acc st)
  show ?case by simp
next
  case (3 net sd ed depth max_depth txn rest acc st)
  show ?case
  proof (cases "xrp_target txn")
    case None
    then have "\<not> (\<exists>d a. tx_Destination txn = Some d \<and> tx_Amount txn = Some a)"
      by (auto simp: xrp_target_def split: option.splits)
    with "3.IH" None show ?thesis
      by (cases "tx_Destination txn"; cases "tx_Amount txn") simp_all
  next
    case T: (Some destination)
    then obtain amount where D: "tx_Destination txn = Some destination"
      and A: "tx_Amount txn = Some amount"
      by (auto simp: xrp_target_def split: option.splits)
    show ?thesis
    proof (cases "destination \<in> traced st")
      case True
      with "3.IH" D A T show ?thesis by simp
    next
      case False
      let ?st1 = "st\<lparr>node_levels := AList.update destination (depth + 1) (node_levels st)\<rparr>"
      have sub: "xrp_trace_transactions net destination sd ed (depth + 1) max_depth ?st1 =
        trace_scheme (\<lambda>a d. xrp_fetch_all_transactions net a sd ed d max_depth) xrp_target
          destination (depth + 1) max_depth ?st1"
        using "3.IH" D A False by simp
      let ?L = "xrp_trace_transactions net destination sd ed (depth + 1) max_depth ?st1"
      let ?R = "trace_scheme (\<lambda>a d. xrp_fetch_all_transactions net a sd ed d max_depth)
          xrp_target destination (depth + 1) max_depth ?st1"
      show ?thesis
      proof (cases ?L)
        case None
        moreover from None sub have "?R = None" by simp
        ultimately show ?thesis using D A T False
          by (simp del: xrp_trace_transactions.simps trace_scheme.simps)
      next
        case (Some r)
        obtain res st2 where r: "r = (res, st2)" by (cases r)
        show ?thesis
        proof (cases res)
          case (Inl err)
          have L: "?L = Some (Inl err, st2)" using Some r Inl by simp
          moreover from L sub have "?R = Some (Inl err, st2)" by simp
          ultimately show ?thesis using D A T False
            by (simp del: xrp_trace_transactions.simps trace_scheme.simps)
        next
          case (Inr sub_txns)
          have L: "?L = Some (Inr sub_txns, st2)" using Some r Inr by simp
          have "xrp_trace_loop net sd ed depth max_depth rest (acc @ [txn] @ sub_txns) st2 =
            loop_scheme (\<lambda>a d. xrp_fetch_all_transactions net a sd ed d max_depth) xrp_target
              depth max_depth rest (acc @ [txn] @ sub_txns) st2"
            using "3.IH" D A False L by simp
          moreover from L sub have "?R = Some (Inr sub_txns, st2)" by simp
          ultimately show ?thesis using L D A T False
            by (simp del: xrp_trace_transactions.simps trace_scheme.simps)
        qed
      qed
    qed
  qed
qed

section \<open>build\_graph\<close>

lemma keys_update: "keys (AList.update k v d) = insert k (keys d)"
  by (simp add: keys_def dom_update)

lemma map_of_None_keys: "map_of d k = None \<longleftrightarrow> k \<notin> keys d"
  by (simp add: keys_def map_of_eq_None_iff)

lemma eth_build_loop_levels:
  "eth_build_loop txns G nl = Inr (G', nl') \<Longrightarrow>
     keys nl \<subseteq> keys nl' \<and> (\<forall>a\<in>keys nl. map_of nl' a = map_of nl a) \<and>
     (\<forall>t\<in>set txns. tx_from t \<notin> keys nl \<longrightarrow> map_of nl' (tx_from t) = Some 0)"
proof (induction txns arbitrary: G nl)
  case Nil
  then show ?case by simp
next
  case (Cons txn rest)
  let ?nl1 = "if tx_from txn \<notin> keys nl then AList.update (tx_from txn) 0 nl else nl"
  from Cons.prems obtain G1 where
    rec: "eth_build_loop rest G1 ?nl1 = Inr (G', nl')"
    by (auto simp: Let_def split: option.splits)
  note IH = Cons.IH [OF rec]
  have sub: "keys nl \<subseteq> keys ?nl1"
    by (auto simp: keys_update)
  have same: "\<forall>a\<in>keys nl. map_of ?nl1 a = map_of nl a"
    by (auto simp: update_conv')
  have new: "tx_from txn \<notin> keys nl \<longrightarrow> map_of ?nl1 (tx_from txn) = Some 0"
    by (simp add: update_conv')
  have k1: "keys ?nl1 = insert (tx_from txn) (keys nl)"
    by (auto simp: keys_update)
  show ?case
  proof (intro conjI ballI impI)
    show "keys nl \<subseteq> keys nl'" using sub IH by blast
  next
    fix a assume "a \<in> keys nl"
    then show "map_of nl' a = map_of nl a" using sub same IH by auto
  next
    fix t assume t: "t \<in> set (txn # rest)" and fresh: "tx_from t \<notin> keys nl"
    show "map_of nl' (tx_from t) = Some 0"
    proof (cases "tx_from t = tx_from txn")
      case True
      then have "map_of ?nl1 (tx_from t) = Some 0" using fresh new by simp
      moreover have "tx_from t \<in> keys ?nl1" using True k1 by simp
      ultimately show ?thesis using IH by auto
    next
      case False
      then have "t \<in> set rest" "tx_from t \<notin> keys ?nl1" using t fresh k1 by auto
      then show ?thesis using IH by blast
    qed
  qed
qed

lemma xrp_build_loop_levels:
  "xrp_build_loop txns G nl = Inr (G', nl') \<Longrightarrow>
     keys nl \<subseteq> keys nl' \<and> (\<forall>a\<in>keys nl. map_of nl' a = map_of nl a) \<and>
     (\<forall>t\<in>set txns. tx_Destination t \<noteq> None \<and> tx_Amount t \<noteq> None \<longrightarrow>
        tx_Account t \<notin> keys nl \<longrightarrow> map_of nl' (tx_Account t) = Some 0)"
proof (induction txns arbitrary: G nl)
  case Nil
  then show ?case by simp
next
  case (Cons txn rest)
  show ?case
  proof (cases "tx_Destination txn \<noteq> None \<and> tx_Amount txn \<noteq> None")
    case False
    then have "xrp_build_loop rest G nl = Inr (G', nl')"
      using Cons.prems by (cases "tx_Destination txn"; cases "tx_Amount txn") (auto simp: Let_def)
    from Cons.IH [OF this] False show ?thesis by auto
  next
    case True
    let ?nl1 = "if tx_Account txn \<notin> keys nl then AList.update (tx_Account txn) 0 nl else nl"
    from Cons.prems True obtain G1 where
      rec: "xrp_build_loop rest G1 ?nl1 = Inr (G', nl')"
      by (auto simp: Let_def split: option.splits)
    note IH = Cons.IH [OF rec]
    have sub: "keys nl \<subseteq> keys ?nl1"
      by (auto simp: keys_update)
    have same: "\<forall>a\<in>keys nl. map_of ?nl1 a = map_of nl a"
      by (auto simp: update_conv')
    have new: "tx_Account txn \<notin> keys nl \<longrightarrow> map_of ?nl1 (tx_Account txn) = Some 0"
      by (simp add: update_conv')
    have k1: "keys ?nl1 = insert (tx_Account txn) (keys nl)"
      by (auto simp: keys_update)
    show ?thesis
    proof (intro conjI ballI impI)
      show "keys nl \<subseteq> keys nl'" using sub IH by blast
    next
      fix a assume "a \<in> keys nl"
      then show "map_of nl' a = map_of nl a" using sub same IH by auto
    next
      fix t assume t: "t \<in> set (txn # rest)" and fresh: "tx_Account t \<notin> keys nl"
        and fields: "tx_Destination t \<noteq> None \<and> tx_Amount t \<noteq> None"
      show "map_of nl' (tx_Account t) = Some 0"
      proof (cases "tx_Account t = tx_Account txn")
        case True
        then have "map_of ?nl1 (tx_Account t) = Some 0" using fresh new by simp
        moreover have "tx_Account t \<in> keys ?nl1" using True k1 by simp
        ultimately show ?thesis using IH by auto
      next
        case False
        then have "t \<in> set rest" "tx_Account t \<notin> keys ?nl1" using t fresh k1 by auto
        then show ?thesis using IH fields by blast
      qed
    qed
  qed
qed

lemma edges_set_subset_key [simp]: "edges (set_subset_key n l G) = edges G"
  by (simp add: set_subset_key_def)

lemma nodes_set_subset_key [simp]: "nodes (set_subset_key n l G) = nodes G"
  by (simp add: set_subset_key_def)

lemma edges_add_edge [simp]: "edges (add_edge u v w G) = (edges G)((u, v) \<mapsto> w)"
  by (simp add: add_edge_def)

lemma set_nodes_add_edge [simp]: "set (nodes (add_edge u v w G)) = insert u (insert v (set (nodes G)))"
  by (auto simp: add_edge_def add_node_def)

lemma eth_build_loop_edges:
  "eth_build_loop txns G nl = Inr (G', nl') \<Longrightarrow>
     edges G' (u, v) =
       (case filter (\<lambda>t. tx_from t = u \<and> tx_to t = v) txns of
          [] \<Rightarrow> edges G (u, v)
        | t # ts \<Rightarrow> Some (eth_amount (last (t # ts))))"
proof (induction txns arbitrary: G nl)
  case Nil
  then show ?case by simp
next
  case (Cons txn rest)
  from Cons.prems obtain G1 nl1 where
    rec: "eth_build_loop rest G1 nl1 = Inr (G', nl')" and
    G1: "edges G1 = (edges G)((tx_from txn, tx_to txn) \<mapsto> eth_amount txn)"
    by (auto simp: Let_def split: option.splits)
  from Cons.IH [OF rec] G1 show ?case
    by (auto split: list.splits)
qed

lemma xrp_build_loop_edges:
  "xrp_build_loop txns G nl = Inr (G', nl') \<Longrightarrow>
     edges G' (u, v) =
       (case filter (\<lambda>t. tx_Account t = u \<and> tx_Destination t = Some v \<and> tx_Amount t \<noteq> None)
               txns of
          [] \<Rightarrow> edges G (u, v)
        | t # ts \<Rightarrow> map_option xrp_amount (tx_Amount (last (t # ts))))"
proof (induction txns arbitrary: G nl)
  case Nil
  then show ?case by simp
next
  case (Cons txn rest)
  show ?case
  proof (cases "tx_Destination txn \<noteq> None \<and> tx_Amount txn \<noteq> None")
    case False
    then have "xrp_build_loop rest G nl = Inr (G', nl')"
      using Cons.prems by (cases "tx_Destination txn"; cases "tx_Amount txn") (auto simp: Let_def)
    from Cons.IH [OF this] False show ?thesis by auto
  next
    case True
    then obtain d a where d: "tx_Destination txn = Some d" and a: "tx_Amount txn = Some a"
      by auto
    from Cons.prems d a obtain G1 nl1 where
      rec: "xrp_build_loop rest G1 nl1 = Inr (G', nl')" and
      G1: "edges G1 = (edges G)((tx_Account txn, d) \<mapsto> xrp_amount a)"
      by (auto simp: Let_def split: option.splits)
    from Cons.IH [OF rec] G1 d a show ?thesis
      by (auto split: list.splits)
  qed
qed

text \<open>C7. When \<^verbatim>\<open>build_graph\<close> returns, the weight of the edge of a transaction is the
  converted amount of the last transaction in the list with the same source and
  destination: a later transaction overwrites the weight of an earlier one, the amounts are
  not added up. In \<^verbatim>\<open>xrp_track.py\<close> this is said of the transactions that have a
  destination and an amount, the others are skipped.\<close>

theorem build_graph_edge_weight_is_last:
  "(eth_build_graph txns nl = Inr (G, nl') \<longrightarrow>
      (\<forall>t\<in>set txns.
         edges G (tx_from t, tx_to t) =
           Some (eth_amount (last (filter (\<lambda>t'. tx_from t' = tx_from t \<and> tx_to t' = tx_to t) txns))))) \<and>
   (xrp_build_graph xtxns xnl = Inr (XG, xnl') \<longrightarrow>
      (\<forall>t\<in>set xtxns. \<forall>d a. tx_Destination t = Some d \<and> tx_Amount t = Some a \<longrightarrow>
         edges XG (tx_Account t, d) \<noteq> None \<and>
         edges XG (tx_Account t, d) =
           map_option xrp_amount
             (tx_Amount (last (filter (\<lambda>t'. tx_Account t' = tx_Account t \<and>
                tx_Destination t' = Some d \<and> tx_Amount t' \<noteq> None) xtxns)))))"
proof (intro conjI impI ballI allI)
  fix t assume r: "eth_build_graph txns nl = Inr (G, nl')" and t: "t \<in> set txns"
  let ?f = "filter (\<lambda>t'. tx_from t' = tx_from t \<and> tx_to t' = tx_to t) txns"
  from t have "?f \<noteq> []" by (auto simp: filter_empty_conv)
  then obtain x xs where "?f = x # xs" by (meson neq_Nil_conv)
  with eth_build_loop_edges [OF r [unfolded eth_build_graph_def], of "tx_from t" "tx_to t"]
  show "edges G (tx_from t, tx_to t) = Some (eth_amount (last ?f))" by simp
next
  fix t d a
  assume r: "xrp_build_graph xtxns xnl = Inr (XG, xnl')" and t: "t \<in> set xtxns"
    and da: "tx_Destination t = Some d \<and> tx_Amount t = Some a"
  let ?f = "filter (\<lambda>t'. tx_Account t' = tx_Account t \<and>
                tx_Destination t' = Some d \<and> tx_Amount t' \<noteq> None) xtxns"
  from t da have "?f \<noteq> []" by (auto simp: filter_empty_conv)
  then obtain x xs where f: "?f = x # xs" by (meson neq_Nil_conv)
  have "last ?f \<in> set ?f" using f by (metis last_in_set list.distinct(1))
  then have am: "tx_Amount (last ?f) \<noteq> None" by simp
  from f xrp_build_loop_edges [OF r [unfolded xrp_build_graph_def], of "tx_Account t" d]
  have e: "edges XG (tx_Account t, d) = map_option xrp_amount (tx_Amount (last ?f))" by simp
  show "edges XG (tx_Account t, d) \<noteq> None" using e am by simp
  show "edges XG (tx_Account t, d) = map_option xrp_amount (tx_Amount (last ?f))" by (rule e)
qed

theorem build_graph_edge_weight_is_last_witness:
  "(\<exists>G nl'. eth_build_graph [eth_tx ''A'' ''B'' (5 * 10 ^ 18) 1, eth_tx ''A'' ''B'' (3 * 10 ^ 18) 2]
        [(''A'', 0), (''B'', 1)] = Inr (G, nl') \<and> edges G (''A'', ''B'') = Some 3) \<and>
   (\<exists>G nl'. xrp_build_graph [xrp_tx ''A'' ''B'' 5000000 1, xrp_tx ''A'' ''B'' 3000000 2]
        [(''A'', 0), (''B'', 1)] = Inr (G, nl') \<and> edges G (''A'', ''B'') = Some 3)"
proof -
  let ?txns = "[eth_tx ''A'' ''B'' (5 * 10 ^ 18) 1, eth_tx ''A'' ''B'' (3 * 10 ^ 18) 2]"
  let ?xtxns = "[xrp_tx ''A'' ''B'' 5000000 1, xrp_tx ''A'' ''B'' 3000000 2]"
  let ?nl = "[(''A'', 0::int), (''B'', 1)]"
  obtain G nl' where r: "eth_build_graph ?txns ?nl = Inr (G, nl')"
    by (simp add: eth_build_graph_def eth_tx_def keys_def Let_def)
  obtain XG xnl' where xr: "xrp_build_graph ?xtxns ?nl = Inr (XG, xnl')"
    by (simp add: xrp_build_graph_def xrp_tx_def keys_def Let_def)
  note inst = build_graph_edge_weight_is_last [of ?txns ?nl G nl' ?xtxns ?nl XG xnl']
  from inst r have "edges G (''A'', ''B'') = Some 3"
    by (simp add: eth_tx_def eth_amount_def)
  moreover from inst xr have "edges XG (''A'', ''B'') = Some 3"
    by (simp add: xrp_tx_def xrp_amount_def)
  ultimately show ?thesis using r xr by blast
qed

lemma subset_key_set_subset_key [simp]:
  "subset_key (set_subset_key n l G) = (subset_key G)(n \<mapsto> l)"
  by (simp add: set_subset_key_def)

lemma subset_key_add_edge [simp]: "subset_key (add_edge u v w G) = subset_key G"
  by (simp add: add_edge_def)

text \<open>The node attributes follow the level map: after \<^verbatim>\<open>build_graph\<close> the attribute
  \<^verbatim>\<open>subset_key\<close> of a node is its level, and both ends of every transaction that was
  processed have the attribute.\<close>

lemma eth_build_loop_subset_key:
  "eth_build_loop txns G nl = Inr (G', nl') \<Longrightarrow>
     (\<forall>n l. subset_key G n = Some l \<longrightarrow> map_of nl n = Some l) \<Longrightarrow>
     (\<forall>n l. subset_key G' n = Some l \<longrightarrow> map_of nl' n = Some l) \<and>
     dom (subset_key G) \<subseteq> dom (subset_key G') \<and>
     (\<forall>t\<in>set txns. tx_from t \<in> dom (subset_key G') \<and> tx_to t \<in> dom (subset_key G'))"
proof (induction txns arbitrary: G nl)
  case Nil
  then show ?case by simp
next
  case (Cons txn rest)
  let ?nl1 = "if tx_from txn \<notin> keys nl then AList.update (tx_from txn) 0 nl else nl"
  from Cons.prems(1) obtain ls ld where
    ls: "map_of ?nl1 (tx_from txn) = Some ls" and ld: "map_of ?nl1 (tx_to txn) = Some ld"
    by (simp add: Let_def split: option.splits)
  let ?G1 = "set_subset_key (tx_to txn) ld (set_subset_key (tx_from txn) ls
      (add_edge (tx_from txn) (tx_to txn) (eth_amount txn) G))"
  have rec: "eth_build_loop rest ?G1 ?nl1 = Inr (G', nl')"
    using Cons.prems(1) ls ld by (simp add: Let_def)
  have ext: "\<And>n l. map_of nl n = Some l \<Longrightarrow> map_of ?nl1 n = Some l"
  proof -
    fix n l assume a: "map_of nl n = Some l"
    then have "n \<in> keys nl" using map_of_None_keys [of nl n] by auto
    then have "n \<noteq> tx_from txn \<or> tx_from txn \<in> keys nl" by auto
    with a show "map_of ?nl1 n = Some l" by (auto simp: update_conv')
  qed
  have inv1: "\<forall>n l. subset_key ?G1 n = Some l \<longrightarrow> map_of ?nl1 n = Some l"
  proof (intro allI impI)
    fix n l assume a: "subset_key ?G1 n = Some l"
    show "map_of ?nl1 n = Some l"
    proof (cases "n = tx_to txn")
      case True
      with a ld show ?thesis by simp
    next
      case nd: False
      show ?thesis
      proof (cases "n = tx_from txn")
        case True
        with a ls nd show ?thesis by simp
      next
        case False
        with a nd have "subset_key G n = Some l" by simp
        with Cons.prems(2) have "map_of nl n = Some l" by blast
        then show ?thesis by (rule ext)
      qed
    qed
  qed
  note IH = Cons.IH [OF rec inv1]
  have d1: "dom (subset_key ?G1) = insert (tx_to txn) (insert (tx_from txn) (dom (subset_key G)))"
    by simp
  have sub: "dom (subset_key ?G1) \<subseteq> dom (subset_key G')" using IH by blast
  show ?case
  proof (intro conjI ballI)
    show "\<forall>n l. subset_key G' n = Some l \<longrightarrow> map_of nl' n = Some l" using IH by blast
    show "dom (subset_key G) \<subseteq> dom (subset_key G')" using sub d1 by blast
  next
    fix t assume "t \<in> set (txn # rest)"
    then have "t = txn \<or> t \<in> set rest" by simp
    then show "tx_from t \<in> dom (subset_key G')"
    proof
      assume "t = txn"
      then show ?thesis using sub d1 by blast
    next
      assume "t \<in> set rest"
      then show ?thesis using IH by blast
    qed
  next
    fix t assume "t \<in> set (txn # rest)"
    then have "t = txn \<or> t \<in> set rest" by simp
    then show "tx_to t \<in> dom (subset_key G')"
    proof
      assume "t = txn"
      then show ?thesis using sub d1 by blast
    next
      assume "t \<in> set rest"
      then show ?thesis using IH by blast
    qed
  qed
qed


lemma xrp_build_loop_subset_key:
  "xrp_build_loop txns G nl = Inr (G', nl') \<Longrightarrow>
     (\<forall>n l. subset_key G n = Some l \<longrightarrow> map_of nl n = Some l) \<Longrightarrow>
     (\<forall>n l. subset_key G' n = Some l \<longrightarrow> map_of nl' n = Some l) \<and>
     dom (subset_key G) \<subseteq> dom (subset_key G') \<and>
     (\<forall>t\<in>set txns. tx_Destination t \<noteq> None \<and> tx_Amount t \<noteq> None \<longrightarrow>
        tx_Account t \<in> dom (subset_key G'))"
proof (induction txns arbitrary: G nl)
  case Nil
  then show ?case by simp
next
  case (Cons txn rest)
  show ?case
  proof (cases "tx_Destination txn \<noteq> None \<and> tx_Amount txn \<noteq> None")
    case False
    then have "xrp_build_loop rest G nl = Inr (G', nl')"
      using Cons.prems(1)
      by (cases "tx_Destination txn"; cases "tx_Amount txn") (auto simp: Let_def)
    note IH = Cons.IH [OF this Cons.prems(2)]
    show ?thesis
    proof (intro conjI ballI impI)
      show "\<forall>n l. subset_key G' n = Some l \<longrightarrow> map_of nl' n = Some l" using IH by blast
      show "dom (subset_key G) \<subseteq> dom (subset_key G')" using IH by blast
    next
      fix t assume "t \<in> set (txn # rest)"
        and f: "tx_Destination t \<noteq> None \<and> tx_Amount t \<noteq> None"
      with False have "t \<in> set rest" by auto
      with f show "tx_Account t \<in> dom (subset_key G')" using IH by blast
    qed
  next
    case True
    then obtain d a where d: "tx_Destination txn = Some d" and a: "tx_Amount txn = Some a"
      by auto
    let ?nl1 = "if tx_Account txn \<notin> keys nl then AList.update (tx_Account txn) 0 nl else nl"
    from Cons.prems(1) d a obtain ls ld where
      ls: "map_of ?nl1 (tx_Account txn) = Some ls" and ld: "map_of ?nl1 d = Some ld"
      by (simp add: Let_def split: option.splits)
    let ?G1 = "set_subset_key d ld (set_subset_key (tx_Account txn) ls
        (add_edge (tx_Account txn) d (xrp_amount a) G))"
    have rec: "xrp_build_loop rest ?G1 ?nl1 = Inr (G', nl')"
      using Cons.prems(1) d a ls ld by (simp add: Let_def)
    have ext: "\<And>n l. map_of nl n = Some l \<Longrightarrow> map_of ?nl1 n = Some l"
    proof -
      fix n l assume m: "map_of nl n = Some l"
      then have "n \<in> keys nl" using map_of_None_keys [of nl n] by auto
      then have "n \<noteq> tx_Account txn \<or> tx_Account txn \<in> keys nl" by auto
      with m show "map_of ?nl1 n = Some l" by (auto simp: update_conv')
    qed
    have inv1: "\<forall>n l. subset_key ?G1 n = Some l \<longrightarrow> map_of ?nl1 n = Some l"
    proof (intro allI impI)
      fix n l assume s: "subset_key ?G1 n = Some l"
      show "map_of ?nl1 n = Some l"
      proof (cases "n = d")
        case True
        with s ld show ?thesis by simp
      next
        case nd: False
        show ?thesis
        proof (cases "n = tx_Account txn")
          case True
          with s ls nd show ?thesis by simp
        next
          case False
          with s nd have "subset_key G n = Some l" by simp
          with Cons.prems(2) have "map_of nl n = Some l" by blast
          then show ?thesis by (rule ext)
        qed
      qed
    qed
    note IH = Cons.IH [OF rec inv1]
    have d1: "dom (subset_key ?G1) = insert d (insert (tx_Account txn) (dom (subset_key G)))"
      by simp
    have sub: "dom (subset_key ?G1) \<subseteq> dom (subset_key G')" using IH by blast
    show ?thesis
    proof (intro conjI ballI impI)
      show "\<forall>n l. subset_key G' n = Some l \<longrightarrow> map_of nl' n = Some l" using IH by blast
      show "dom (subset_key G) \<subseteq> dom (subset_key G')" using sub d1 by blast
    next
      fix t assume "t \<in> set (txn # rest)"
        and f: "tx_Destination t \<noteq> None \<and> tx_Amount t \<noteq> None"
      then have "t = txn \<or> t \<in> set rest" by simp
      then show "tx_Account t \<in> dom (subset_key G')"
      proof
        assume "t = txn"
        then show ?thesis using sub d1 by blast
      next
        assume "t \<in> set rest"
        with f show ?thesis using IH by blast
      qed
    qed
  qed
qed

text \<open>C8. When \<^verbatim>\<open>build_graph\<close> returns, the source of every transaction it processed
  whose source had no level has level 0, both in the level map it returns (the caller's
  dictionary, mutated in place) and as the node attribute \<^verbatim>\<open>subset_key\<close> of the graph;
  every account that had a level has the level it had. In \<^verbatim>\<open>xrp_track.py\<close> the
  transactions processed are those with a destination and an amount.\<close>

theorem build_graph_defaults_unleveled_sources:
  "(eth_build_graph txns nl = Inr (G, nl') \<longrightarrow>
      (\<forall>t\<in>set txns. tx_from t \<notin> keys nl \<longrightarrow>
         map_of nl' (tx_from t) = Some 0 \<and> subset_key G (tx_from t) = Some 0) \<and>
      (\<forall>a\<in>keys nl. map_of nl' a = map_of nl a)) \<and>
   (xrp_build_graph xtxns xnl = Inr (XG, xnl') \<longrightarrow>
      (\<forall>t\<in>set xtxns. tx_Destination t \<noteq> None \<and> tx_Amount t \<noteq> None \<longrightarrow>
         tx_Account t \<notin> keys xnl \<longrightarrow>
         map_of xnl' (tx_Account t) = Some 0 \<and> subset_key XG (tx_Account t) = Some 0) \<and>
      (\<forall>a\<in>keys xnl. map_of xnl' a = map_of xnl a))"
proof (intro conjI impI ballI)
  fix t assume r: "eth_build_graph txns nl = Inr (G, nl')" and t: "t \<in> set txns"
    and fresh: "tx_from t \<notin> keys nl"
  from r have l: "eth_build_loop txns empty_graph nl = Inr (G, nl')"
    by (simp add: eth_build_graph_def)
  from eth_build_loop_levels [OF l] t fresh
  show m: "map_of nl' (tx_from t) = Some 0" by blast
  have "\<forall>n l. subset_key empty_graph n = Some l \<longrightarrow> map_of nl n = Some l"
    by (simp add: empty_graph_def)
  from eth_build_loop_subset_key [OF l this] t
  obtain lv where "subset_key G (tx_from t) = Some lv" "map_of nl' (tx_from t) = Some lv"
    by blast
  with m show "subset_key G (tx_from t) = Some 0" by simp
next
  fix a assume r: "eth_build_graph txns nl = Inr (G, nl')" and a: "a \<in> keys nl"
  from r have l: "eth_build_loop txns empty_graph nl = Inr (G, nl')"
    by (simp add: eth_build_graph_def)
  from eth_build_loop_levels [OF l] a show "map_of nl' a = map_of nl a" by blast
next
  fix t assume r: "xrp_build_graph xtxns xnl = Inr (XG, xnl')" and t: "t \<in> set xtxns"
    and f: "tx_Destination t \<noteq> None \<and> tx_Amount t \<noteq> None"
    and fresh: "tx_Account t \<notin> keys xnl"
  from r have l: "xrp_build_loop xtxns empty_graph xnl = Inr (XG, xnl')"
    by (simp add: xrp_build_graph_def)
  from xrp_build_loop_levels [OF l] t f fresh
  show m: "map_of xnl' (tx_Account t) = Some 0" by blast
  have "\<forall>n l. subset_key empty_graph n = Some l \<longrightarrow> map_of xnl n = Some l"
    by (simp add: empty_graph_def)
  from xrp_build_loop_subset_key [OF l this] t f
  obtain lv where "subset_key XG (tx_Account t) = Some lv"
    "map_of xnl' (tx_Account t) = Some lv"
    by blast
  with m show "subset_key XG (tx_Account t) = Some 0" by simp
next
  fix a assume r: "xrp_build_graph xtxns xnl = Inr (XG, xnl')" and a: "a \<in> keys xnl"
  from r have l: "xrp_build_loop xtxns empty_graph xnl = Inr (XG, xnl')"
    by (simp add: xrp_build_graph_def)
  from xrp_build_loop_levels [OF l] a show "map_of xnl' a = map_of xnl a" by blast
qed

theorem build_graph_defaults_unleveled_sources_witness:
  "(\<exists>G nl'. eth_build_graph [eth_tx ''S'' ''B'' 5 1] [(''B'', 1)] = Inr (G, nl') \<and>
      ''S'' \<notin> keys [(''B'', 1::int)] \<and> map_of nl' ''S'' = Some 0 \<and>
      subset_key G ''S'' = Some 0 \<and> map_of nl' ''B'' = Some 1) \<and>
   (\<exists>G nl'. xrp_build_graph [xrp_tx ''S'' ''B'' 5 1] [(''B'', 1)] = Inr (G, nl') \<and>
      ''S'' \<notin> keys [(''B'', 1::int)] \<and> map_of nl' ''S'' = Some 0 \<and>
      subset_key G ''S'' = Some 0 \<and> map_of nl' ''B'' = Some 1)"
proof -
  let ?t = "eth_tx ''S'' ''B'' 5 1"
  let ?x = "xrp_tx ''S'' ''B'' 5 1"
  let ?nl = "[(''B'', 1::int)]"
  obtain G nl' where r: "eth_build_graph [?t] ?nl = Inr (G, nl')"
    by (simp add: eth_build_graph_def eth_tx_def keys_def Let_def)
  obtain XG xnl' where xr: "xrp_build_graph [?x] ?nl = Inr (XG, xnl')"
    by (simp add: xrp_build_graph_def xrp_tx_def keys_def Let_def)
  have k: "''S'' \<notin> keys ?nl" "''B'' \<in> keys ?nl" by (simp_all add: keys_def)
  have ft: "tx_from ?t = ''S''" by (simp add: eth_tx_def)
  have fx: "tx_Account ?x = ''S''" "tx_Destination ?x \<noteq> None \<and> tx_Amount ?x \<noteq> None"
    by (simp_all add: xrp_tx_def)
  note e1 = build_graph_defaults_unleveled_sources [THEN conjunct1, rule_format, OF r]
  note x1 = build_graph_defaults_unleveled_sources [THEN conjunct2, rule_format, OF xr]
  have es: "map_of nl' ''S'' = Some 0 \<and> subset_key G ''S'' = Some 0"
    using e1 [THEN conjunct1, rule_format, of ?t] k(1) ft by simp
  have eb: "map_of nl' ''B'' = Some 1"
    using e1 [THEN conjunct2, rule_format, OF k(2)] by simp
  have xs: "map_of xnl' ''S'' = Some 0 \<and> subset_key XG ''S'' = Some 0"
    using x1 [THEN conjunct1, rule_format, of ?x] k(1) fx by simp
  have xb: "map_of xnl' ''B'' = Some 1"
    using x1 [THEN conjunct2, rule_format, OF k(2)] by simp
  show ?thesis
    apply (intro conjI exI)
             apply (rule r)
            apply (rule k(1))
           apply (rule es [THEN conjunct1])
          apply (rule es [THEN conjunct2])
         apply (rule eb)
        apply (rule xr)
       apply (rule k(1))
      apply (rule xs [THEN conjunct1])
     apply (rule xs [THEN conjunct2])
    apply (rule xb)
    done
qed

section \<open>get\_transactions and the page loops\<close>


lemma eth_get_loop_answer:
  "rs i = Response code body \<Longrightarrow> code \<noteq> 429 \<Longrightarrow>
     eth_get_loop rs i sl =
       Some \<lparr>outcome = (if raises_for_status code then Inl (HTTPError code) else Inr body),
             sleeps = sl, requests = Suc i\<rparr>"
  by (subst eth_get_loop.simps) simp




lemma xrp_get_loop_answer:
  "rs i = Response code body \<Longrightarrow> code \<noteq> 429 \<Longrightarrow> code \<noteq> 504 \<Longrightarrow> attempt < retries \<Longrightarrow>
     xrp_get_loop rs retries i attempt sl =
       Some \<lparr>outcome = (if raises_for_status code then Inl (HTTPError code) else Inr body),
             sleeps = sl, requests = Suc i\<rparr>"
  by (subst xrp_get_loop.simps) simp



section \<open>The shared state of a trace\<close>

declare trace_scheme.simps [simp del]

text \<open>A relation between the state before and the state after that is reflexive and
  transitive and holds across the two assignments of the tracer holds across a whole call.\<close>

lemma scheme_preserves:
  fixes R :: "tstate \<Rightarrow> tstate \<Rightarrow> bool"
  assumes R_refl: "\<And>s. R s s"
    and R_trans: "\<And>s1 s2 s3. R s1 s2 \<Longrightarrow> R s2 s3 \<Longrightarrow> R s1 s3"
    and R_visit: "\<And>s a d. a \<notin> traced s \<Longrightarrow>
        R s (s\<lparr>traced := insert a (traced s), fetches := fetches s @ [(a, d)]\<rparr>)"
    and R_level: "\<And>s a l. a \<notin> traced s \<Longrightarrow>
        R s (s\<lparr>node_levels := AList.update a l (node_levels s)\<rparr>)"
  shows "trace_scheme fetch target account depth max_depth st = Some (r, st') \<Longrightarrow> R st st'"
    and "loop_scheme fetch target depth max_depth txns acc st = Some (r, st') \<Longrightarrow> R st st'"
proof (induction fetch target account depth max_depth st
    and fetch target depth max_depth txns acc st
    arbitrary: r st' and r st' rule: trace_scheme_loop_scheme.induct)
  case (1 fetch target account depth max_depth st)
  show ?case
  proof (cases "depth > max_depth \<or> account \<in> traced st")
    case True
    with "1.prems" have "st' = st" by (simp add: trace_scheme.simps)
    then show ?thesis by (simp add: R_refl)
  next
    case False
    let ?st1 = "st\<lparr>traced := insert account (traced st),
        fetches := fetches st @ [(account, depth)]\<rparr>"
    have v: "R st ?st1" using False by (intro R_visit) simp
    show ?thesis
    proof (cases "fetch account depth")
      case None
      with "1.prems" False show ?thesis by (simp add: trace_scheme.simps)
    next
      case (Some x)
      show ?thesis
      proof (cases x)
        case (Inl err)
        with "1.prems" False Some have "st' = ?st1" by (simp add: trace_scheme.simps)
        with v show ?thesis by simp
      next
        case (Inr txns)
        with "1.prems" False Some
        have "loop_scheme fetch target depth max_depth txns [] ?st1 = Some (r, st')"
          by (simp add: trace_scheme.simps)
        with "1.IH" [OF False refl Some Inr] have "R ?st1 st'" by blast
        with v show ?thesis by (rule R_trans)
      qed
    qed
  qed
next
  case (2 fetch target depth max_depth acc st)
  then show ?case by (simp add: R_refl)
next
  case (3 fetch target depth max_depth txn rest acc st)
  show ?case
  proof (cases "target txn")
    case None
    with "3.prems" have "loop_scheme fetch target depth max_depth rest acc st = Some (r, st')"
      by simp
    with "3.IH"(1) [OF None] show ?thesis by blast
  next
    case (Some destination)
    show ?thesis
    proof (cases "destination \<in> traced st")
      case True
      with "3.prems" Some
      have "loop_scheme fetch target depth max_depth rest acc st = Some (r, st')"
        by simp
      with "3.IH"(4) [OF Some] True show ?thesis by blast
    next
      case False
      let ?st1 = "st\<lparr>node_levels := AList.update destination (depth + 1) (node_levels st)\<rparr>"
      have l: "R st ?st1" using False by (rule R_level)
      show ?thesis
      proof (cases "trace_scheme fetch target destination (depth + 1) max_depth ?st1")
        case None
        with "3.prems" Some False show ?thesis by simp
      next
        case sub: (Some x)
        obtain res st2 where x: "x = (res, st2)" by (cases x)
        have s: "R ?st1 st2" using "3.IH"(2) [OF Some False refl] sub x by blast
        show ?thesis
        proof (cases res)
          case (Inl err)
          with "3.prems" Some False sub x have "st' = st2" by simp
          with l s show ?thesis using R_trans by blast
        next
          case (Inr sub_txns)
          with "3.prems" Some False sub x
          have "loop_scheme fetch target depth max_depth rest (acc @ [txn] @ sub_txns) st2 =
              Some (r, st')"
            by simp
          with "3.IH"(3) [OF Some False refl sub [unfolded x] _ Inr] have "R st2 st'" 
            by blast
          with l s show ?thesis using R_trans by blast
        qed
      qed
    qed
  qed
qed

lemma fetch_once_refl: "fetch_once s s"
  by (simp add: fetch_once_def)

lemma fetch_once_trans:
  assumes "fetch_once s1 s2" and "fetch_once s2 s3"
  shows "fetch_once s1 s3"
proof -
  from assms(1) obtain n1 where n1: "fetches s2 = fetches s1 @ n1" "distinct (map fst n1)"
    "fst ` set n1 \<inter> traced s1 = {}" "traced s2 = traced s1 \<union> fst ` set n1"
    unfolding fetch_once_def by blast
  from assms(2) obtain n2 where n2: "fetches s3 = fetches s2 @ n2" "distinct (map fst n2)"
    "fst ` set n2 \<inter> traced s2 = {}" "traced s3 = traced s2 \<union> fst ` set n2"
    unfolding fetch_once_def by blast
  have "fetches s3 = fetches s1 @ (n1 @ n2)" using n1 n2 by simp
  moreover have "distinct (map fst (n1 @ n2))" using n1 n2 by auto
  moreover have "fst ` set (n1 @ n2) \<inter> traced s1 = {}" using n1 n2 by auto
  moreover have "traced s3 = traced s1 \<union> fst ` set (n1 @ n2)" using n1 n2 by auto
  ultimately show ?thesis unfolding fetch_once_def by blast
qed

lemma fetch_once_visit:
  "a \<notin> traced s \<Longrightarrow>
     fetch_once s (s\<lparr>traced := insert a (traced s), fetches := fetches s @ [(a, d)]\<rparr>)"
  unfolding fetch_once_def by (rule exI [of _ "[(a, d)]"]) simp

lemma fetch_once_level:
  "fetch_once s (s\<lparr>node_levels := AList.update a l (node_levels s)\<rparr>)"
  by (simp add: fetch_once_def)

lemma trace_scheme_fetch_once:
  "trace_scheme fetch target account depth max_depth st = Some (r, st') \<Longrightarrow> fetch_once st st'"
  by (rule scheme_preserves(1) [where R = fetch_once,
        OF fetch_once_refl fetch_once_trans fetch_once_visit fetch_once_level])

lemma levels_kept_refl: "levels_kept s s"
  by (simp add: levels_kept_def)

lemma levels_kept_trans:
  assumes "levels_kept s1 s2" and "levels_kept s2 s3"
  shows "levels_kept s1 s3"
proof -
  have t: "traced s1 \<subseteq> traced s2" "traced s2 \<subseteq> traced s3"
    and k: "keys (node_levels s1) \<subseteq> keys (node_levels s2)"
      "keys (node_levels s2) \<subseteq> keys (node_levels s3)"
    and m1: "\<And>a. a \<in> traced s1 \<Longrightarrow> map_of (node_levels s2) a = map_of (node_levels s1) a"
    and m2: "\<And>a. a \<in> traced s2 \<Longrightarrow> map_of (node_levels s3) a = map_of (node_levels s2) a"
    using assms unfolding levels_kept_def by blast+
  have "\<forall>a\<in>traced s1. map_of (node_levels s3) a = map_of (node_levels s1) a"
  proof
    fix a assume a: "a \<in> traced s1"
    then have "a \<in> traced s2" using t by blast
    then show "map_of (node_levels s3) a = map_of (node_levels s1) a"
      using m1 [OF a] m2 by simp
  qed
  then show ?thesis using t k unfolding levels_kept_def by blast
qed

lemma levels_kept_visit:
  "levels_kept s (s\<lparr>traced := insert a (traced s), fetches := fetches s @ [(a, d)]\<rparr>)"
  by (auto simp: levels_kept_def)

lemma levels_kept_level:
  "a \<notin> traced s \<Longrightarrow> levels_kept s (s\<lparr>node_levels := AList.update a l (node_levels s)\<rparr>)"
  by (auto simp: levels_kept_def keys_update update_conv')

lemma trace_scheme_levels_kept:
  "trace_scheme fetch target account depth max_depth st = Some (r, st') \<Longrightarrow> levels_kept st st'"
  by (rule scheme_preserves(1) [where R = levels_kept,
        OF levels_kept_refl levels_kept_trans levels_kept_visit levels_kept_level])

lemma loop_scheme_levels_kept:
  "loop_scheme fetch target depth max_depth txns acc st = Some (r, st') \<Longrightarrow> levels_kept st st'"
  by (rule scheme_preserves(2) [where R = levels_kept,
        OF levels_kept_refl levels_kept_trans levels_kept_visit levels_kept_level])

lemma scenario_eth_fetch:
  "eth_fetch_all_transactions scenario_eth account 0 10 depth max_depth =
     Some (Inr (eth_history account))"
proof -
  have g: "eth_get_transactions scenario_eth account 1 =
      Some \<lparr>outcome = Inr \<lparr>status = ''1'', result = eth_history account\<rparr>,
            sleeps = [], requests = 1\<rparr>"
    unfolding eth_get_transactions_def
    by (subst eth_get_loop_answer [where code = 200]) (simp_all add: scenario_eth_def raises_for_status_def)
  have f: "filter (eth_accept 0 10) (eth_history account) = eth_history account"
    by (simp add: eth_history_def eth_accept_def eth_amount_def eth_AB_def eth_AC_def
        eth_BD_def eth_tx_def)
  have len: "length (eth_history account) < 10000"
    by (simp add: eth_history_def)
  show ?thesis
    unfolding eth_fetch_all_transactions_def
    by (subst eth_fetch_pages.simps) (simp add: g f len)
qed

lemma scenario_xrp_fetch:
  "xrp_fetch_all_transactions scenario_xrp account 0 10 depth max_depth =
     Some (Inr (xrp_history account))"
proof -
  have g: "xrp_get_transactions scenario_xrp account None 5 =
      Some \<lparr>outcome = Inr \<lparr>transactions = xrp_history account, marker = None\<rparr>,
            sleeps = [], requests = 1\<rparr>"
    unfolding xrp_get_transactions_def
    by (subst xrp_get_loop_answer [where code = 200])
       (simp_all add: scenario_xrp_def raises_for_status_def sent_marker_def)
  have f: "filter (xrp_accept 0 10) (xrp_history account) = xrp_history account"
    by (simp add: xrp_history_def xrp_accept_def xrp_AB_def xrp_AC_def
        xrp_BD_def xrp_tx_def)
  show ?thesis
    unfolding xrp_fetch_all_transactions_def
    by (subst xrp_fetch_pages.simps) (simp add: g f)
qed

lemma scenario_eth_trace:
  "eth_trace_transactions scenario_eth ''A'' 0 10 0 1 (initial_state ''A'') =
     Some (Inr [eth_AB, eth_BD, eth_AC],
       \<lparr>traced = {''A'', ''B'', ''C''},
        node_levels = [(''A'', 0), (''B'', 1), (''D'', 2), (''C'', 1)],
        fetches = [(''A'', 0), (''B'', 1), (''C'', 1)]\<rparr>)"
  by (simp add: scenario_eth_fetch eth_history_def initial_state_def eth_AB_def eth_AC_def
      eth_BD_def eth_tx_def eth_amount_def insert_commute Let_def)

lemma scenario_xrp_trace:
  "xrp_trace_transactions scenario_xrp ''A'' 0 10 0 1 (initial_state ''A'') =
     Some (Inr [xrp_AB, xrp_BD, xrp_AC],
       \<lparr>traced = {''A'', ''B'', ''C''},
        node_levels = [(''A'', 0), (''B'', 1), (''D'', 2), (''C'', 1)],
        fetches = [(''A'', 0), (''B'', 1), (''C'', 1)]\<rparr>)"
  by (simp add: scenario_xrp_fetch xrp_history_def initial_state_def xrp_AB_def xrp_AC_def
      xrp_BD_def xrp_tx_def insert_commute Let_def)

lemma trace_scheme_cases [consumes 1, case_names skip raises loop]:
  assumes "trace_scheme fetch target account depth max_depth st = Some (r, st')"
  obtains "depth > max_depth \<or> account \<in> traced st" "r = Inr []" "st' = st"
  | err where "\<not> (depth > max_depth \<or> account \<in> traced st)"
      "fetch account depth = Some (Inl err)" "r = Inl err"
      "st' = st\<lparr>traced := insert account (traced st),
                 fetches := fetches st @ [(account, depth)]\<rparr>"
  | txns where "\<not> (depth > max_depth \<or> account \<in> traced st)"
      "fetch account depth = Some (Inr txns)"
      "loop_scheme fetch target depth max_depth txns []
         (st\<lparr>traced := insert account (traced st),
              fetches := fetches st @ [(account, depth)]\<rparr>) = Some (r, st')"
proof (cases "depth > max_depth \<or> account \<in> traced st")
  case True
  with assms have "r = Inr []" "st' = st" by (simp_all add: trace_scheme.simps)
  from that(1) [OF True this] show ?thesis .
next
  case False
  show ?thesis
  proof (cases "fetch account depth")
    case None
    with assms False show ?thesis by (simp add: trace_scheme.simps)
  next
    case (Some x)
    show ?thesis
    proof (cases x)
      case (Inl err)
      with assms False Some have "r = Inl err"
        "st' = st\<lparr>traced := insert account (traced st),
                   fetches := fetches st @ [(account, depth)]\<rparr>"
        by (auto simp: trace_scheme.simps)
      from that(2) [OF False Some [unfolded Inl] this] show ?thesis .
    next
      case (Inr txns)
      with assms False Some
      have "loop_scheme fetch target depth max_depth txns []
         (st\<lparr>traced := insert account (traced st),
              fetches := fetches st @ [(account, depth)]\<rparr>) = Some (r, st')"
        by (simp add: trace_scheme.simps)
      from that(3) [OF False Some [unfolded Inr] this] show ?thesis .
    qed
  qed
qed

lemma loop_scheme_cases [consumes 1, case_names skip raises continues]:
  assumes "loop_scheme fetch target depth max_depth (txn # rest) acc st = Some (r, st')"
  obtains "target txn = None \<or> (\<exists>d. target txn = Some d \<and> d \<in> traced st)"
      "loop_scheme fetch target depth max_depth rest acc st = Some (r, st')"
  | destination err where "target txn = Some destination" "destination \<notin> traced st"
      "trace_scheme fetch target destination (depth + 1) max_depth
         (st\<lparr>node_levels := AList.update destination (depth + 1) (node_levels st)\<rparr>) =
       Some (Inl err, st')" "r = Inl err"
  | destination sub st2 where "target txn = Some destination" "destination \<notin> traced st"
      "trace_scheme fetch target destination (depth + 1) max_depth
         (st\<lparr>node_levels := AList.update destination (depth + 1) (node_levels st)\<rparr>) =
       Some (Inr sub, st2)"
      "loop_scheme fetch target depth max_depth rest (acc @ [txn] @ sub) st2 = Some (r, st')"
proof (cases "target txn")
  case None
  with assms have "loop_scheme fetch target depth max_depth rest acc st = Some (r, st')"
    by simp
  from that(1) [OF _ this] None show ?thesis by simp
next
  case (Some destination)
  show ?thesis
  proof (cases "destination \<in> traced st")
    case True
    with assms Some
    have "loop_scheme fetch target depth max_depth rest acc st = Some (r, st')"
      by simp
    from that(1) [OF _ this] Some True show ?thesis by simp
  next
    case False
    let ?st1 = "st\<lparr>node_levels := AList.update destination (depth + 1) (node_levels st)\<rparr>"
    show ?thesis
    proof (cases "trace_scheme fetch target destination (depth + 1) max_depth ?st1")
      case None
      with assms Some False show ?thesis by simp
    next
      case sub: (Some x)
      obtain res st2 where x: "x = (res, st2)" by (cases x)
      show ?thesis
      proof (cases res)
        case (Inl err)
        from assms Some False sub x Inl have e: "r = Inl err" "st' = st2" by auto
        from sub x Inl e
        have "trace_scheme fetch target destination (depth + 1) max_depth ?st1 =
            Some (Inl err, st')" by simp
        from that(2) [OF Some False this e(1)] show ?thesis .
      next
        case (Inr sub_txns)
        from assms Some False sub x Inr
        have l: "loop_scheme fetch target depth max_depth rest (acc @ [txn] @ sub_txns) st2 =
            Some (r, st')" by simp
        from sub x Inr
        have "trace_scheme fetch target destination (depth + 1) max_depth ?st1 =
            Some (Inr sub_txns, st2)" by simp
        from that(3) [OF Some False this l] show ?thesis .
      qed
    qed
  qed
qed

lemma accumulated_mono:
  "accumulated fetch target s t \<Longrightarrow> levels_kept s s' \<Longrightarrow> accumulated fetch target s' t"
  unfolding accumulated_def levels_kept_def by blast

lemma scheme_result:
  "trace_scheme fetch target account depth max_depth st = Some (Inr txns, st') \<Longrightarrow>
     \<forall>t\<in>set txns. accumulated fetch target st' t"
  "loop_scheme fetch target depth max_depth todo acc st = Some (Inr res, st') \<Longrightarrow>
     \<forall>t\<in>set todo. \<exists>a d ftx. fetch a d = Some (Inr ftx) \<and> t \<in> set ftx \<Longrightarrow>
     \<exists>sub. res = acc @ sub \<and> (\<forall>t\<in>set sub. accumulated fetch target st' t)"
proof (induction fetch target account depth max_depth st
    and fetch target depth max_depth todo acc st
    arbitrary: txns st' and res st' rule: trace_scheme_loop_scheme.induct)
  case (1 fetch target account depth max_depth st)
  from "1.prems" show ?case
  proof (cases rule: trace_scheme_cases)
    case skip
    then show ?thesis by simp
  next
    case (raises err)
    then show ?thesis by simp
  next
    case (loop ftx)
    have "\<forall>t\<in>set ftx. \<exists>a d f. fetch a d = Some (Inr f) \<and> t \<in> set f"
      using loop(2) by blast
    from "1.IH" [OF loop(1) refl loop(2) refl loop(3) this] show ?thesis by simp
  qed
next
  case (2 fetch target depth max_depth acc st)
  then show ?case by simp
next
  case (3 fetch target depth max_depth txn rest acc st)
  have rest: "\<forall>t\<in>set rest. \<exists>a d ftx. fetch a d = Some (Inr ftx) \<and> t \<in> set ftx"
    using "3.prems"(2) by simp
  from "3.prems"(1) show ?case
  proof (cases rule: loop_scheme_cases)
    case skip
    from skip(1) show ?thesis
    proof
      assume n: "target txn = None"
      from "3.IH"(1) [OF n skip(2) rest] show ?thesis .
    next
      assume "\<exists>d. target txn = Some d \<and> d \<in> traced st"
      then obtain d where d: "target txn = Some d" "d \<in> traced st" by blast
      from "3.IH"(4) [OF d(1) _ skip(2) rest] d(2) show ?thesis by simp
    qed
  next
    case (raises destination err)
    then show ?thesis by simp
  next
    case (continues destination sub st2)
    let ?st1 = "st\<lparr>node_levels := AList.update destination (depth + 1) (node_levels st)\<rparr>"
    have s: "\<forall>t\<in>set sub. accumulated fetch target st2 t"
      using "3.IH"(2) [OF continues(1,2) refl continues(3)] .
    from "3.IH"(3) [OF continues(1,2) refl continues(3) refl refl continues(4) rest]
    obtain sub2 where sub2: "res = (acc @ [txn] @ sub) @ sub2"
      "\<forall>t\<in>set sub2. accumulated fetch target st' t" by blast
    have k12: "levels_kept ?st1 st2" using continues(3) by (rule trace_scheme_levels_kept)
    have k2: "levels_kept st2 st'" using continues(4) by (rule loop_scheme_levels_kept)
    have "accumulated fetch target ?st1 txn"
      using "3.prems"(2) continues(1) by (simp add: accumulated_def keys_update)
    then have t: "accumulated fetch target st' txn"
      using k12 k2 by (blast intro: accumulated_mono)
    have "\<forall>t\<in>set sub. accumulated fetch target st' t"
      using s k2 by (blast intro: accumulated_mono)
    with t sub2 have "res = acc @ ([txn] @ sub @ sub2) \<and>
        (\<forall>t\<in>set ([txn] @ sub @ sub2). accumulated fetch target st' t)"
      by auto
    then show ?thesis by blast
  qed
qed

lemma node_level_lookups_ok:
  "set ns \<subseteq> keys nl \<Longrightarrow> \<exists>ls. node_level_lookups ns nl = Inr ls"
proof (induction ns)
  case Nil
  show ?case by simp
next
  case (Cons n ns)
  then obtain ls where "node_level_lookups ns nl = Inr ls" by auto
  moreover from Cons.prems obtain l where "map_of nl n = Some l"
    using map_of_None_keys [of nl n] by (cases "map_of nl n") auto
  ultimately show ?case by simp
qed

lemma eth_build_loop_ok:
  "\<forall>t\<in>set txns. tx_to t \<in> keys nl \<Longrightarrow> set (nodes G) \<subseteq> keys nl \<Longrightarrow>
     \<exists>G' nl'. eth_build_loop txns G nl = Inr (G', nl') \<and> set (nodes G') \<subseteq> keys nl'"
proof (induction txns arbitrary: G nl)
  case Nil
  then show ?case by simp
next
  case (Cons txn rest)
  let ?nl1 = "if tx_from txn \<notin> keys nl then AList.update (tx_from txn) 0 nl else nl"
  have k1: "keys ?nl1 = insert (tx_from txn) (keys nl)"
    by (auto simp: keys_update)
  obtain ls where ls: "map_of ?nl1 (tx_from txn) = Some ls"
    using map_of_None_keys [of ?nl1 "tx_from txn"] k1 by (cases "map_of ?nl1 (tx_from txn)") auto
  have "tx_to txn \<in> keys ?nl1" using Cons.prems(1) k1 by simp
  then obtain ld where ld: "map_of ?nl1 (tx_to txn) = Some ld"
    using map_of_None_keys [of ?nl1 "tx_to txn"] by (cases "map_of ?nl1 (tx_to txn)") auto
  let ?G1 = "set_subset_key (tx_to txn) ld (set_subset_key (tx_from txn) ls
      (add_edge (tx_from txn) (tx_to txn) (eth_amount txn) G))"
  have step: "eth_build_loop (txn # rest) G nl = eth_build_loop rest ?G1 ?nl1"
    using ls ld by (simp add: Let_def)
  have "\<forall>t\<in>set rest. tx_to t \<in> keys ?nl1" using Cons.prems(1) k1 by simp
  moreover have "set (nodes ?G1) \<subseteq> keys ?nl1"
    using Cons.prems k1 by auto
  ultimately show ?case using Cons.IH [of ?nl1 ?G1] step by simp
qed

lemma xrp_build_loop_ok:
  "\<forall>t\<in>set txns. \<forall>d. tx_Destination t = Some d \<longrightarrow> tx_Amount t \<noteq> None \<longrightarrow> d \<in> keys nl \<Longrightarrow>
     set (nodes G) \<subseteq> keys nl \<Longrightarrow>
     \<exists>G' nl'. xrp_build_loop txns G nl = Inr (G', nl') \<and> set (nodes G') \<subseteq> keys nl'"
proof (induction txns arbitrary: G nl)
  case Nil
  then show ?case by simp
next
  case (Cons txn rest)
  show ?case
  proof (cases "tx_Destination txn \<noteq> None \<and> tx_Amount txn \<noteq> None")
    case False
    then have "xrp_build_loop (txn # rest) G nl = xrp_build_loop rest G nl"
      by (cases "tx_Destination txn"; cases "tx_Amount txn") (auto simp: Let_def)
    with Cons.IH [of nl G] Cons.prems show ?thesis by simp
  next
    case True
    then obtain d a where d: "tx_Destination txn = Some d" and a: "tx_Amount txn = Some a"
      by auto
    let ?nl1 = "if tx_Account txn \<notin> keys nl then AList.update (tx_Account txn) 0 nl else nl"
    have k1: "keys ?nl1 = insert (tx_Account txn) (keys nl)"
      by (auto simp: keys_update)
    obtain ls where ls: "map_of ?nl1 (tx_Account txn) = Some ls"
      using map_of_None_keys [of ?nl1 "tx_Account txn"] k1
      by (cases "map_of ?nl1 (tx_Account txn)") auto
    have "d \<in> keys ?nl1" using Cons.prems(1) k1 d a by simp
    then obtain ld where ld: "map_of ?nl1 d = Some ld"
      using map_of_None_keys [of ?nl1 d] by (cases "map_of ?nl1 d") auto
    let ?G1 = "set_subset_key d ld (set_subset_key (tx_Account txn) ls
        (add_edge (tx_Account txn) d (xrp_amount a) G))"
    have step: "xrp_build_loop (txn # rest) G nl = xrp_build_loop rest ?G1 ?nl1"
      using ls ld d a by (simp add: Let_def)
    have "\<forall>t\<in>set rest. \<forall>d. tx_Destination t = Some d \<longrightarrow> tx_Amount t \<noteq> None \<longrightarrow>
        d \<in> keys ?nl1" using Cons.prems(1) k1 by simp
    moreover have "set (nodes ?G1) \<subseteq> keys ?nl1"
      using Cons.prems k1 \<open>d \<in> keys ?nl1\<close> by auto
    ultimately show ?thesis using Cons.IH [of ?nl1 ?G1] step by simp
  qed
qed

section \<open>Claims about the tracer\<close>


lemma eth_target_Some: "eth_target t = Some b \<Longrightarrow> tx_to t = b \<and> b \<noteq> [] \<and> eth_amount t > 0"
  by (auto simp: eth_target_def split: if_splits)

lemma xrp_target_Some:
  "xrp_target t = Some b \<Longrightarrow> tx_Destination t = Some b \<and> tx_Amount t \<noteq> None"
  by (auto simp: xrp_target_def split: option.splits)

text \<open>C4. When a call of \<^verbatim>\<open>trace_transactions\<close> returns or raises, the calls of
  \<^verbatim>\<open>fetch_all_transactions\<close> it made are for accounts that differ from each other and
  were not in \<^verbatim>\<open>traced\<close> before the call, and each of them is in \<^verbatim>\<open>traced\<close>
  afterwards: no account is fetched twice.\<close>

theorem fetch_at_most_once:
  "(eth_trace_transactions net account sd ed depth max_depth st = Some (r, st') \<longrightarrow>
      (\<exists>new. fetches st' = fetches st @ new \<and> distinct (map fst new) \<and>
         fst ` set new \<inter> traced st = {} \<and> fst ` set new \<subseteq> traced st')) \<and>
   (xrp_trace_transactions xnet account sd ed depth max_depth st = Some (xr, xst') \<longrightarrow>
      (\<exists>new. fetches xst' = fetches st @ new \<and> distinct (map fst new) \<and>
         fst ` set new \<inter> traced st = {} \<and> fst ` set new \<subseteq> traced xst'))"
proof (intro conjI impI)
  assume "eth_trace_transactions net account sd ed depth max_depth st = Some (r, st')"
  then have "fetch_once st st'"
    unfolding eth_trace_is_scheme by (rule trace_scheme_fetch_once)
  then obtain new where n: "fetches st' = fetches st @ new" "distinct (map fst new)"
      "fst ` set new \<inter> traced st = {}" "traced st' = traced st \<union> fst ` set new"
    unfolding fetch_once_def by (elim exE conjE)
  have "fst ` set new \<subseteq> traced st'" unfolding n(4) by (rule Un_upper2)
  with n(1,2,3) show "\<exists>new. fetches st' = fetches st @ new \<and> distinct (map fst new) \<and>
      fst ` set new \<inter> traced st = {} \<and> fst ` set new \<subseteq> traced st'"
    by (intro exI [of _ new] conjI)
next
  assume "xrp_trace_transactions xnet account sd ed depth max_depth st = Some (xr, xst')"
  then have "fetch_once st xst'"
    unfolding xrp_trace_is_scheme by (rule trace_scheme_fetch_once)
  then obtain new where n: "fetches xst' = fetches st @ new" "distinct (map fst new)"
      "fst ` set new \<inter> traced st = {}" "traced xst' = traced st \<union> fst ` set new"
    unfolding fetch_once_def by (elim exE conjE)
  have "fst ` set new \<subseteq> traced xst'" unfolding n(4) by (rule Un_upper2)
  with n(1,2,3) show "\<exists>new. fetches xst' = fetches st @ new \<and> distinct (map fst new) \<and>
      fst ` set new \<inter> traced st = {} \<and> fst ` set new \<subseteq> traced xst'"
    by (intro exI [of _ new] conjI)
qed

theorem fetch_at_most_once_witness:
  "(\<exists>r st'. eth_trace_transactions scenario_eth ''A'' 0 10 0 1 (initial_state ''A'') =
        Some (r, st') \<and> fetches st' = [(''A'', 0), (''B'', 1), (''C'', 1)] \<and>
        distinct (map fst (fetches st'))) \<and>
   (\<exists>r st'. xrp_trace_transactions scenario_xrp ''A'' 0 10 0 1 (initial_state ''A'') =
        Some (r, st') \<and> fetches st' = [(''A'', 0), (''B'', 1), (''C'', 1)] \<and>
        distinct (map fst (fetches st')))"
proof -
  let ?S = "\<lparr>traced = {''A'', ''B'', ''C''},
      node_levels = [(''A'', 0), (''B'', 1), (''D'', 2), (''C'', 1)],
      fetches = [(''A'', 0), (''B'', 1), (''C'', 1)]\<rparr>"
  note e = scenario_eth_trace and x = scenario_xrp_trace
  from fetch_at_most_once [THEN conjunct1, rule_format, OF e]
  obtain new where "fetches ?S = fetches (initial_state ''A'') @ new" "distinct (map fst new)"
    by blast
  then have de: "distinct (map fst (fetches ?S))" by (simp add: initial_state_def)
  from fetch_at_most_once [THEN conjunct2, rule_format, OF x]
  obtain xnew where "fetches ?S = fetches (initial_state ''A'') @ xnew"
    "distinct (map fst xnew)"
    by blast
  then have dx: "distinct (map fst (fetches ?S))" by (simp add: initial_state_def)
  have f: "fetches ?S = [(''A'', 0), (''B'', 1), (''C'', 1)]" by simp
  show ?thesis
    apply (intro conjI exI)
         apply (rule e)
        apply (rule f)
       apply (rule de)
      apply (rule x)
     apply (rule f)
    apply (rule dx)
    done
qed

text \<open>C10. The destination of every transaction in the list \<^verbatim>\<open>trace_transactions\<close>
  returns has a level in \<^verbatim>\<open>node_levels\<close>. So \<^verbatim>\<open>build_graph\<close> on that list and that
  dictionary raises no \<^verbatim>\<open>KeyError\<close>, every node of the graph it returns has a level in
  the dictionary it leaves, and the look-ups \<^verbatim>\<open>node_levels[node]\<close> of
  \<^verbatim>\<open>visualize_graph\<close> find every node of the graph.\<close>

theorem traced_graph_nodes_have_levels:
  "(eth_trace_transactions net account sd ed depth max_depth st = Some (Inr txns, st') \<longrightarrow>
      (\<forall>t\<in>set txns. tx_to t \<in> keys (node_levels st')) \<and>
      (\<exists>G nl ls. eth_build_graph txns (node_levels st') = Inr (G, nl) \<and>
         set (nodes G) \<subseteq> keys nl \<and> node_level_lookups (nodes G) nl = Inr ls)) \<and>
   (xrp_trace_transactions xnet account sd ed depth max_depth st = Some (Inr xtxns, xst') \<longrightarrow>
      (\<forall>t\<in>set xtxns. \<exists>d. tx_Destination t = Some d \<and> d \<in> keys (node_levels xst')) \<and>
      (\<exists>G nl ls. xrp_build_graph xtxns (node_levels xst') = Inr (G, nl) \<and>
         set (nodes G) \<subseteq> keys nl \<and> node_level_lookups (nodes G) nl = Inr ls))"
proof (intro conjI impI)
  assume "eth_trace_transactions net account sd ed depth max_depth st = Some (Inr txns, st')"
  then have "\<forall>t\<in>set txns. accumulated (\<lambda>a d. eth_fetch_all_transactions net a sd ed d max_depth)
      eth_target st' t"
    unfolding eth_trace_is_scheme by (rule scheme_result(1))
  then have d: "\<forall>t\<in>set txns. tx_to t \<in> keys (node_levels st')"
    unfolding accumulated_def using eth_target_Some by blast
  then show "\<forall>t\<in>set txns. tx_to t \<in> keys (node_levels st')" .
  from eth_build_loop_ok [OF d, of empty_graph]
  obtain G nl where g: "eth_build_graph txns (node_levels st') = Inr (G, nl)"
    "set (nodes G) \<subseteq> keys nl"
    by (auto simp: eth_build_graph_def empty_graph_def)
  from node_level_lookups_ok [OF g(2)] g
  show "\<exists>G nl ls. eth_build_graph txns (node_levels st') = Inr (G, nl) \<and>
      set (nodes G) \<subseteq> keys nl \<and> node_level_lookups (nodes G) nl = Inr ls"
    by blast
next
  assume "xrp_trace_transactions xnet account sd ed depth max_depth st = Some (Inr xtxns, xst')"
  then have "\<forall>t\<in>set xtxns. accumulated
      (\<lambda>a d. xrp_fetch_all_transactions xnet a sd ed d max_depth) xrp_target xst' t"
    unfolding xrp_trace_is_scheme by (rule scheme_result(1))
  then have d: "\<forall>t\<in>set xtxns. \<exists>d. tx_Destination t = Some d \<and> d \<in> keys (node_levels xst')"
    unfolding accumulated_def using xrp_target_Some by blast
  then show "\<forall>t\<in>set xtxns. \<exists>d. tx_Destination t = Some d \<and> d \<in> keys (node_levels xst')" .
  from d have "\<forall>t\<in>set xtxns. \<forall>d. tx_Destination t = Some d \<longrightarrow> tx_Amount t \<noteq> None \<longrightarrow>
      d \<in> keys (node_levels xst')" by fastforce
  from xrp_build_loop_ok [OF this, of empty_graph]
  obtain G nl where g: "xrp_build_graph xtxns (node_levels xst') = Inr (G, nl)"
    "set (nodes G) \<subseteq> keys nl"
    by (auto simp: xrp_build_graph_def empty_graph_def)
  from node_level_lookups_ok [OF g(2)] g
  show "\<exists>G nl ls. xrp_build_graph xtxns (node_levels xst') = Inr (G, nl) \<and>
      set (nodes G) \<subseteq> keys nl \<and> node_level_lookups (nodes G) nl = Inr ls"
    by blast
qed

theorem traced_graph_nodes_have_levels_witness:
  "(\<exists>txns st' G nl ls.
      eth_trace_transactions scenario_eth ''A'' 0 10 0 1 (initial_state ''A'') =
        Some (Inr txns, st') \<and>
      eth_build_graph txns (node_levels st') = Inr (G, nl) \<and>
      set (nodes G) \<subseteq> keys nl \<and> node_level_lookups (nodes G) nl = Inr ls) \<and>
   (\<exists>txns st' G nl ls.
      xrp_trace_transactions scenario_xrp ''A'' 0 10 0 1 (initial_state ''A'') =
        Some (Inr txns, st') \<and>
      xrp_build_graph txns (node_levels st') = Inr (G, nl) \<and>
      set (nodes G) \<subseteq> keys nl \<and> node_level_lookups (nodes G) nl = Inr ls)"
proof -
  from traced_graph_nodes_have_levels [THEN conjunct1, rule_format, OF scenario_eth_trace]
  obtain G nl ls where g: "eth_build_graph [eth_AB, eth_BD, eth_AC]
      (node_levels \<lparr>traced = {''A'', ''B'', ''C''},
        node_levels = [(''A'', 0), (''B'', 1), (''D'', 2), (''C'', 1)],
        fetches = [(''A'', 0), (''B'', 1), (''C'', 1)]\<rparr>) = Inr (G, nl)"
      "set (nodes G) \<subseteq> keys nl" "node_level_lookups (nodes G) nl = Inr ls"
    by blast
  from traced_graph_nodes_have_levels [THEN conjunct2, rule_format, OF scenario_xrp_trace]
  obtain XG xnl xls where x: "xrp_build_graph [xrp_AB, xrp_BD, xrp_AC]
      (node_levels \<lparr>traced = {''A'', ''B'', ''C''},
        node_levels = [(''A'', 0), (''B'', 1), (''D'', 2), (''C'', 1)],
        fetches = [(''A'', 0), (''B'', 1), (''C'', 1)]\<rparr>) = Inr (XG, xnl)"
      "set (nodes XG) \<subseteq> keys xnl" "node_level_lookups (nodes XG) xnl = Inr xls"
    by blast
  show ?thesis
    apply (intro conjI exI)
           apply (rule scenario_eth_trace)
          apply (rule g(1))
         apply (rule g(2))
        apply (rule g(3))
       apply (rule scenario_xrp_trace)
      apply (rule x(1))
     apply (rule x(2))
    apply (rule x(3))
    done
qed

lemma scenario_eth_build:
  "eth_build_graph [eth_AB, eth_BD, eth_AC] (node_levels scenario_final) =
     Inr (scenario_graph, node_levels scenario_final)"
proof -
  have "eth_build_graph [eth_AB, eth_BD, eth_AC] (node_levels scenario_final) =
      Inr (\<lparr>nodes = [''A'', ''B'', ''D'', ''C''],
             subset_key = [''A'' \<mapsto> 0, ''B'' \<mapsto> 1, ''B'' \<mapsto> 1, ''D'' \<mapsto> 2, ''A'' \<mapsto> 0, ''C'' \<mapsto> 1],
             edges = [(''A'', ''B'') \<mapsto> 5, (''B'', ''D'') \<mapsto> 1, (''A'', ''C'') \<mapsto> 3]\<rparr>,
           node_levels scenario_final)"
    by (simp add: eth_build_graph_def scenario_final_def eth_AB_def eth_BD_def eth_AC_def
        eth_tx_def eth_amount_def keys_def Let_def empty_graph_def add_edge_def add_node_def
        set_subset_key_def)
  moreover have "[''A'' \<mapsto> 0, ''B'' \<mapsto> 1, ''B'' \<mapsto> 1, ''D'' \<mapsto> 2, ''A'' \<mapsto> 0, ''C'' \<mapsto> 1] =
      [''A'' \<mapsto> 0::int, ''B'' \<mapsto> 1, ''D'' \<mapsto> 2, ''C'' \<mapsto> 1]"
    by (rule ext) simp
  ultimately show ?thesis by (simp add: scenario_graph_def)
qed

lemma scenario_xrp_build:
  "xrp_build_graph [xrp_AB, xrp_BD, xrp_AC] (node_levels scenario_final) =
     Inr (scenario_graph, node_levels scenario_final)"
proof -
  have "xrp_build_graph [xrp_AB, xrp_BD, xrp_AC] (node_levels scenario_final) =
      Inr (\<lparr>nodes = [''A'', ''B'', ''D'', ''C''],
             subset_key = [''A'' \<mapsto> 0, ''B'' \<mapsto> 1, ''B'' \<mapsto> 1, ''D'' \<mapsto> 2, ''A'' \<mapsto> 0, ''C'' \<mapsto> 1],
             edges = [(''A'', ''B'') \<mapsto> 5, (''B'', ''D'') \<mapsto> 1, (''A'', ''C'') \<mapsto> 3]\<rparr>,
           node_levels scenario_final)"
    by (simp add: xrp_build_graph_def scenario_final_def xrp_AB_def xrp_BD_def xrp_AC_def
        xrp_tx_def xrp_amount_def keys_def Let_def empty_graph_def add_edge_def add_node_def
        set_subset_key_def)
  moreover have "[''A'' \<mapsto> 0, ''B'' \<mapsto> 1, ''B'' \<mapsto> 1, ''D'' \<mapsto> 2, ''A'' \<mapsto> 0, ''C'' \<mapsto> 1] =
      [''A'' \<mapsto> 0::int, ''B'' \<mapsto> 1, ''D'' \<mapsto> 2, ''C'' \<mapsto> 1]"
    by (rule ext) simp
  ultimately show ?thesis by (simp add: scenario_graph_def)
qed

lemma scenario_eth_trace_final:
  "eth_trace_transactions scenario_eth ''A'' 0 10 0 1 (initial_state ''A'') =
     Some (Inr [eth_AB, eth_BD, eth_AC], scenario_final)"
  unfolding scenario_final_def by (rule scenario_eth_trace)

lemma scenario_xrp_trace_final:
  "xrp_trace_transactions scenario_xrp ''A'' 0 10 0 1 (initial_state ''A'') =
     Some (Inr [xrp_AB, xrp_BD, xrp_AC], scenario_final)"
  unfolding scenario_final_def by (rule scenario_xrp_trace)

text \<open>C1, as stated, fails. In the scenario with \<^verbatim>\<open>max_depth=1\<close> the account \<open>B\<close> is
  expanded: its depth 1 does not exceed \<^verbatim>\<open>max_depth\<close>, and the log of fetches holds
  \<open>(B, 1)\<close>. So \<open>B \<rightarrow> D\<close> is returned, \<open>D\<close> is a node of the graph with the edge
  \<open>B \<rightarrow> D\<close>, and \<open>D\<close> has level 2.\<close>

theorem scenario_depth_one_counterexample:
  "eth_trace_transactions scenario_eth ''A'' 0 10 0 1 (initial_state ''A'') =
     Some (Inr [eth_AB, eth_BD, eth_AC], scenario_final) \<and>
   eth_build_graph [eth_AB, eth_BD, eth_AC] (node_levels scenario_final) =
     Inr (scenario_graph, node_levels scenario_final) \<and>
   xrp_trace_transactions scenario_xrp ''A'' 0 10 0 1 (initial_state ''A'') =
     Some (Inr [xrp_AB, xrp_BD, xrp_AC], scenario_final) \<and>
   xrp_build_graph [xrp_AB, xrp_BD, xrp_AC] (node_levels scenario_final) =
     Inr (scenario_graph, node_levels scenario_final) \<and>
   (''B'', 1) \<in> set (fetches scenario_final) \<and>
   ''D'' \<in> set (nodes scenario_graph) \<and>
   edges scenario_graph (''B'', ''D'') = Some 1 \<and>
   map_of (node_levels scenario_final) ''D'' = Some 2 \<and>
   set (nodes scenario_graph) \<noteq> {''A'', ''B'', ''C''}"
proof -
  have "(''B'', 1) \<in> set (fetches scenario_final)" by (simp add: scenario_final_def)
  moreover have "''D'' \<in> set (nodes scenario_graph)" by (simp add: scenario_graph_def)
  moreover have "edges scenario_graph (''B'', ''D'') = Some 1" by (simp add: scenario_graph_def)
  moreover have "map_of (node_levels scenario_final) ''D'' = Some 2"
    by (simp add: scenario_final_def)
  moreover have "set (nodes scenario_graph) \<noteq> {''A'', ''B'', ''C''}"
  proof
    assume "set (nodes scenario_graph) = {''A'', ''B'', ''C''}"
    moreover have "''D'' \<in> set (nodes scenario_graph)" by (simp add: scenario_graph_def)
    ultimately have "''D'' \<in> {''A'', ''B'', ''C''}" by simp
    then show False by simp
  qed
  ultimately show ?thesis
    using scenario_eth_trace_final scenario_eth_build scenario_xrp_trace_final
      scenario_xrp_build by simp
qed

text \<open>C1, amended. For origin \<open>A\<close> and \<^verbatim>\<open>max_depth=1\<close> over the three transactions,
  both programs expand \<open>A\<close>, \<open>B\<close> and \<open>C\<close> and return \<open>A \<rightarrow> B\<close>, \<open>B \<rightarrow> D\<close>,
  \<open>A \<rightarrow> C\<close> in this order. \<open>D\<close> gets level 2 and is not expanded. The graph has the
  nodes \<open>A\<close>, \<open>B\<close>, \<open>D\<close>, \<open>C\<close> and the edges \<open>A \<rightarrow> B\<close>, \<open>B \<rightarrow> D\<close>, \<open>A \<rightarrow> C\<close>,
  and the final level map is \<open>A = 0\<close>, \<open>B = 1\<close>, \<open>D = 2\<close>, \<open>C = 1\<close>.\<close>

theorem scenario_depth_one:
  "eth_trace_transactions scenario_eth ''A'' 0 10 0 1 (initial_state ''A'') =
     Some (Inr [eth_AB, eth_BD, eth_AC], scenario_final) \<and>
   eth_build_graph [eth_AB, eth_BD, eth_AC] (node_levels scenario_final) =
     Inr (scenario_graph, node_levels scenario_final) \<and>
   xrp_trace_transactions scenario_xrp ''A'' 0 10 0 1 (initial_state ''A'') =
     Some (Inr [xrp_AB, xrp_BD, xrp_AC], scenario_final) \<and>
   xrp_build_graph [xrp_AB, xrp_BD, xrp_AC] (node_levels scenario_final) =
     Inr (scenario_graph, node_levels scenario_final) \<and>
   map fst (fetches scenario_final) = [''A'', ''B'', ''C''] \<and>
   nodes scenario_graph = [''A'', ''B'', ''D'', ''C''] \<and>
   dom (edges scenario_graph) = {(''A'', ''B''), (''B'', ''D''), (''A'', ''C'')} \<and>
   edges scenario_graph (''A'', ''B'') = Some 5 \<and>
   edges scenario_graph (''B'', ''D'') = Some 1 \<and>
   edges scenario_graph (''A'', ''C'') = Some 3 \<and>
   node_levels scenario_final = [(''A'', 0), (''B'', 1), (''D'', 2), (''C'', 1)]"
proof -
  have "map fst (fetches scenario_final) = [''A'', ''B'', ''C'']"
    by (simp add: scenario_final_def)
  moreover have "nodes scenario_graph = [''A'', ''B'', ''D'', ''C'']"
    by (simp add: scenario_graph_def)
  moreover have "dom (edges scenario_graph) = {(''A'', ''B''), (''B'', ''D''), (''A'', ''C'')}"
    by (auto simp: scenario_graph_def)
  moreover have "edges scenario_graph (''A'', ''B'') = Some 5"
    "edges scenario_graph (''B'', ''D'') = Some 1" "edges scenario_graph (''A'', ''C'') = Some 3"
    by (simp_all add: scenario_graph_def)
  moreover have "node_levels scenario_final = [(''A'', 0), (''B'', 1), (''D'', 2), (''C'', 1)]"
    by (simp add: scenario_final_def)
  ultimately show ?thesis
    using scenario_eth_trace_final scenario_eth_build scenario_xrp_trace_final
      scenario_xrp_build by simp
qed

lemma loop_scheme_fetch_once:
  "loop_scheme fetch target depth max_depth txns acc st = Some (r, st') \<Longrightarrow> fetch_once st st'"
  by (rule scheme_preserves(2) [where R = fetch_once,
        OF fetch_once_refl fetch_once_trans fetch_once_visit fetch_once_level])

lemma fetch_once_log: "fetch_once s s' \<Longrightarrow> \<exists>new. fetches s' = fetches s @ new"
  unfolding fetch_once_def by (elim exE conjE) (rule exI)




















text \<open>The page loops return accepted transactions only.\<close>

lemma eth_fetch_pages_accepts:
  assumes "eth_fetch_pages net account sd ed page acc = Some y"
  shows "\<forall>res. y = Inr res \<longrightarrow> (\<forall>t\<in>set acc. eth_accept sd ed t) \<longrightarrow>
      (\<forall>t\<in>set res. eth_accept sd ed t)"
proof (rule eth_fetch_pages.raw_induct
    [where P = "\<lambda>net account sd ed page acc y. \<forall>res. y = Inr res \<longrightarrow>
       (\<forall>t\<in>set acc. eth_accept sd ed t) \<longrightarrow> (\<forall>t\<in>set res. eth_accept sd ed t)", OF _ assms])
  fix fetch_pages ::
    "eth_net \<Rightarrow> account \<Rightarrow> int \<Rightarrow> int \<Rightarrow> int \<Rightarrow> eth_txn list \<Rightarrow> (error + eth_txn list) option"
  fix net account sd ed page acc y
  assume IH: "\<And>net account sd ed page acc y. fetch_pages net account sd ed page acc = Some y \<Longrightarrow>
      \<forall>res. y = Inr res \<longrightarrow> (\<forall>t\<in>set acc. eth_accept sd ed t) \<longrightarrow>
        (\<forall>t\<in>set res. eth_accept sd ed t)"
    and H: "(case eth_get_transactions net account page of
        None \<Rightarrow> None
      | Some r \<Rightarrow>
          (case outcome r of
             Inl err \<Rightarrow> Some (Inl err)
           | Inr data \<Rightarrow>
               if status data = ''0'' then Some (Inr acc)
               else
                 let transactions' = acc @ filter (eth_accept sd ed) (result data)
                 in if length (result data) < 10000 then Some (Inr transactions')
                    else fetch_pages net account sd ed (page + 1) transactions')) = Some y"
  show "\<forall>res. y = Inr res \<longrightarrow> (\<forall>t\<in>set acc. eth_accept sd ed t) \<longrightarrow>
      (\<forall>t\<in>set res. eth_accept sd ed t)"
  proof (intro allI impI)
    fix res assume y: "y = Inr res" and acc: "\<forall>t\<in>set acc. eth_accept sd ed t"
    from H obtain r where r: "eth_get_transactions net account page = Some r"
      by (cases "eth_get_transactions net account page") auto
    from H r y obtain data where data: "outcome r = Inr data"
      by (cases "outcome r") auto
    let ?acc' = "acc @ filter (eth_accept sd ed) (result data)"
    have acc': "\<forall>t\<in>set ?acc'. eth_accept sd ed t" using acc by (simp add: ball_Un)
    show "\<forall>t\<in>set res. eth_accept sd ed t"
    proof (cases "status data = ''0''")
      case True
      with H r data y have res: "res = acc" by simp
      show ?thesis unfolding res by (rule acc)
    next
      case False
      show ?thesis
      proof (cases "length (result data) < 10000")
        case True
        with H r data y False have res: "res = ?acc'" by (simp add: Let_def)
        show ?thesis unfolding res by (rule acc')
      next
        case big: False
        with H r data False have "fetch_pages net account sd ed (page + 1) ?acc' = Some y"
          by (simp add: Let_def)
        from IH [OF this, THEN spec, THEN mp, THEN mp, OF y acc'] show ?thesis .
      qed
    qed
  qed
qed

lemma xrp_fetch_pages_accepts:
  assumes "xrp_fetch_pages net account sd ed depth max_depth mk acc = Some y"
  shows "\<forall>res. y = Inr res \<longrightarrow> (\<forall>t\<in>set acc. xrp_accept sd ed t) \<longrightarrow>
      (\<forall>t\<in>set res. xrp_accept sd ed t)"
proof (rule xrp_fetch_pages.raw_induct
    [where P = "\<lambda>net account sd ed depth max_depth mk acc y. \<forall>res. y = Inr res \<longrightarrow>
       (\<forall>t\<in>set acc. xrp_accept sd ed t) \<longrightarrow> (\<forall>t\<in>set res. xrp_accept sd ed t)", OF _ assms])
  fix fetch_pages ::
    "xrp_net \<Rightarrow> account \<Rightarrow> int \<Rightarrow> int \<Rightarrow> int \<Rightarrow> int \<Rightarrow> string option \<Rightarrow> xrp_txn list
      \<Rightarrow> (error + xrp_txn list) option"
  fix net account sd ed depth max_depth mk acc y
  assume IH: "\<And>net account sd ed depth max_depth mk acc y.
      fetch_pages net account sd ed depth max_depth mk acc = Some y \<Longrightarrow>
      \<forall>res. y = Inr res \<longrightarrow> (\<forall>t\<in>set acc. xrp_accept sd ed t) \<longrightarrow>
        (\<forall>t\<in>set res. xrp_accept sd ed t)"
    and H: "(case xrp_get_transactions net account mk 5 of
        None \<Rightarrow> None
      | Some r \<Rightarrow>
          (case outcome r of
             Inl err \<Rightarrow> Some (Inl err)
           | Inr data \<Rightarrow>
               let txns' = acc @ filter (xrp_accept sd ed) (transactions data)
               in if marker data \<noteq> None \<and> depth < max_depth
                  then fetch_pages net account sd ed depth max_depth (marker data) txns'
                  else Some (Inr txns'))) = Some y"
  show "\<forall>res. y = Inr res \<longrightarrow> (\<forall>t\<in>set acc. xrp_accept sd ed t) \<longrightarrow>
      (\<forall>t\<in>set res. xrp_accept sd ed t)"
  proof (intro allI impI)
    fix res assume y: "y = Inr res" and acc: "\<forall>t\<in>set acc. xrp_accept sd ed t"
    from H obtain r where r: "xrp_get_transactions net account mk 5 = Some r"
      by (cases "xrp_get_transactions net account mk 5") auto
    from H r y obtain data where data: "outcome r = Inr data"
      by (cases "outcome r") auto
    let ?acc' = "acc @ filter (xrp_accept sd ed) (transactions data)"
    have acc': "\<forall>t\<in>set ?acc'. xrp_accept sd ed t" using acc by (simp add: ball_Un)
    show "\<forall>t\<in>set res. xrp_accept sd ed t"
    proof (cases "marker data \<noteq> None \<and> depth < max_depth")
      case True
      with H r data
      have "fetch_pages net account sd ed depth max_depth (marker data) ?acc' = Some y"
        by (simp add: Let_def)
      from IH [OF this, THEN spec, THEN mp, THEN mp, OF y acc'] show ?thesis .
    next
      case False
      with H r data y have res: "res = ?acc'" by (auto simp: Let_def)
      show ?thesis unfolding res by (rule acc')
    qed
  qed
qed

lemma eth_fetch_all_accepts:
  assumes "eth_fetch_all_transactions net a sd ed d max_depth = Some (Inr txns)"
  shows "\<forall>t\<in>set txns. eth_accept sd ed t"
proof -
  from assms have "eth_fetch_pages net a sd ed 1 [] = Some (Inr txns)"
    by (simp add: eth_fetch_all_transactions_def)
  from eth_fetch_pages_accepts [OF this, THEN spec, THEN mp, THEN mp, OF refl]
  show ?thesis by simp
qed

lemma xrp_fetch_all_accepts:
  assumes "xrp_fetch_all_transactions net a sd ed d max_depth = Some (Inr txns)"
  shows "\<forall>t\<in>set txns. xrp_accept sd ed t"
proof -
  from assms have "xrp_fetch_pages net a sd ed d max_depth None [] = Some (Inr txns)"
    by (simp add: xrp_fetch_all_transactions_def)
  from xrp_fetch_pages_accepts [OF this, THEN spec, THEN mp, THEN mp, OF refl]
  show ?thesis by simp
qed

lemma eth_trace_accepts:
  assumes "eth_trace_transactions net origin sd ed depth max_depth st = Some (Inr txns, st')"
    and "t \<in> set txns"
  shows "eth_accept sd ed t"
proof -
  from assms(1) have "\<forall>t\<in>set txns. accumulated
      (\<lambda>a d. eth_fetch_all_transactions net a sd ed d max_depth) eth_target st' t"
    unfolding eth_trace_is_scheme by (rule scheme_result(1))
  with assms(2) obtain a d ftx where
    "eth_fetch_all_transactions net a sd ed d max_depth = Some (Inr ftx)" "t \<in> set ftx"
    unfolding accumulated_def by blast
  with eth_fetch_all_accepts show ?thesis by blast
qed

lemma xrp_trace_accepts:
  assumes "xrp_trace_transactions net origin sd ed depth max_depth st = Some (Inr txns, st')"
    and "t \<in> set txns"
  shows "xrp_accept sd ed t"
proof -
  from assms(1) have "\<forall>t\<in>set txns. accumulated
      (\<lambda>a d. xrp_fetch_all_transactions net a sd ed d max_depth) xrp_target st' t"
    unfolding xrp_trace_is_scheme by (rule scheme_result(1))
  with assms(2) obtain a d ftx where
    "xrp_fetch_all_transactions net a sd ed d max_depth = Some (Inr ftx)" "t \<in> set ftx"
    unfolding accumulated_def by blast
  with xrp_fetch_all_accepts show ?thesis by blast
qed

lemma eth_build_graph_edge_origin:
  assumes "eth_build_graph txns nl = Inr (G, nl')" and "edges G (u, v) = Some w"
  shows "\<exists>t\<in>set txns. tx_from t = u \<and> tx_to t = v \<and> eth_amount t = w"
proof -
  let ?f = "filter (\<lambda>t. tx_from t = u \<and> tx_to t = v) txns"
  from assms(1) have l: "eth_build_loop txns empty_graph nl = Inr (G, nl')"
    by (simp add: eth_build_graph_def)
  have ne: "?f \<noteq> []"
  proof
    assume "?f = []"
    with eth_build_loop_edges [OF l, of u v] assms(2) show False
      by (simp add: empty_graph_def)
  qed
  then obtain x xs where f: "?f = x # xs" by (meson neq_Nil_conv)
  with eth_build_loop_edges [OF l, of u v] assms(2) have w: "eth_amount (last ?f) = w"
    by simp
  have "last ?f \<in> set ?f" using ne by (rule last_in_set)
  then have "last ?f \<in> set txns" "tx_from (last ?f) = u \<and> tx_to (last ?f) = v" by simp_all
  with w show ?thesis by blast
qed

lemma xrp_build_graph_edge_origin:
  assumes "xrp_build_graph txns nl = Inr (G, nl')" and "edges G (u, v) = Some w"
  shows "\<exists>t\<in>set txns. tx_Account t = u \<and> tx_Destination t = Some v \<and>
      map_option xrp_amount (tx_Amount t) = Some w"
proof -
  let ?f = "filter (\<lambda>t. tx_Account t = u \<and> tx_Destination t = Some v \<and> tx_Amount t \<noteq> None)
      txns"
  from assms(1) have l: "xrp_build_loop txns empty_graph nl = Inr (G, nl')"
    by (simp add: xrp_build_graph_def)
  have ne: "?f \<noteq> []"
  proof
    assume "?f = []"
    with xrp_build_loop_edges [OF l, of u v] assms(2) show False
      by (simp add: empty_graph_def)
  qed
  then obtain x xs where f: "?f = x # xs" by (meson neq_Nil_conv)
  with xrp_build_loop_edges [OF l, of u v] assms(2)
  have w: "map_option xrp_amount (tx_Amount (last ?f)) = Some w"
    by simp
  have "last ?f \<in> set ?f" using ne by (rule last_in_set)
  then have "last ?f \<in> set txns"
    "tx_Account (last ?f) = u \<and> tx_Destination (last ?f) = Some v" by simp_all
  with w show ?thesis by blast
qed

lemma xrp_zero_fetch:
  "xrp_fetch_all_transactions xrp_zero account 0 10 depth max_depth =
     Some (Inr (if account = ''A'' then [xrp_tx ''A'' ''B'' 0 1] else []))"
proof -
  have g: "xrp_get_transactions xrp_zero account None 5 =
      Some \<lparr>outcome = Inr \<lparr>transactions =
                (if account = ''A'' then [xrp_tx ''A'' ''B'' 0 1] else []), marker = None\<rparr>,
            sleeps = [], requests = 1\<rparr>"
    unfolding xrp_get_transactions_def
    by (subst xrp_get_loop_answer [where code = 200])
       (simp_all add: xrp_zero_def raises_for_status_def sent_marker_def)
  have f: "filter (xrp_accept 0 10) (if account = ''A'' then [xrp_tx ''A'' ''B'' 0 1] else []) =
      (if account = ''A'' then [xrp_tx ''A'' ''B'' 0 1] else [])"
    by (simp add: xrp_accept_def xrp_tx_def)
  show ?thesis
    unfolding xrp_fetch_all_transactions_def
    by (subst xrp_fetch_pages.simps) (simp add: g f)
qed

lemma xrp_zero_trace:
  "xrp_trace_transactions xrp_zero ''A'' 0 10 0 1 (initial_state ''A'') =
     Some (Inr [xrp_tx ''A'' ''B'' 0 1], xrp_zero_final)"
  by (simp add: xrp_zero_fetch initial_state_def xrp_zero_final_def xrp_tx_def
      insert_commute Let_def)

lemma xrp_zero_build:
  "xrp_build_graph [xrp_tx ''A'' ''B'' 0 1] (node_levels xrp_zero_final) =
     Inr (xrp_zero_graph, node_levels xrp_zero_final)"
  by (simp add: xrp_build_graph_def xrp_zero_final_def xrp_zero_graph_def xrp_tx_def
      xrp_amount_def keys_def Let_def empty_graph_def add_edge_def add_node_def
      set_subset_key_def)

text \<open>C5, as stated, fails for \<^verbatim>\<open>xrp_track.py\<close>: its filter tests the date only. A
  payment of amount 0 inside the window is accepted, is returned by the tracer and is an
  edge of the graph, with weight 0.\<close>

theorem xrp_filter_amount_counterexample:
  "xrp_accept 0 10 (xrp_tx ''A'' ''B'' 0 1) \<and>
   tx_Amount (xrp_tx ''A'' ''B'' 0 1) = Some 0 \<and>
   \<not> 0 < xrp_amount 0 \<and>
   xrp_trace_transactions xrp_zero ''A'' 0 10 0 1 (initial_state ''A'') =
     Some (Inr [xrp_tx ''A'' ''B'' 0 1], xrp_zero_final) \<and>
   xrp_build_graph [xrp_tx ''A'' ''B'' 0 1] (node_levels xrp_zero_final) =
     Inr (xrp_zero_graph, node_levels xrp_zero_final) \<and>
   edges xrp_zero_graph (''A'', ''B'') = Some 0"
proof -
  have "xrp_accept 0 10 (xrp_tx ''A'' ''B'' 0 1)" by (simp add: xrp_accept_def xrp_tx_def)
  moreover have "tx_Amount (xrp_tx ''A'' ''B'' 0 1) = Some 0" by (simp add: xrp_tx_def)
  moreover have "\<not> 0 < xrp_amount 0" by (simp add: xrp_amount_def)
  moreover have "edges xrp_zero_graph (''A'', ''B'') = Some 0" by (simp add: xrp_zero_graph_def)
  ultimately show ?thesis using xrp_zero_trace xrp_zero_build by simp
qed

text \<open>C5, amended. The filter of \<^verbatim>\<open>eth_track.py\<close> accepts a transaction if and only if
  its time stamp is inside the window, bounds included, and its amount is positive; the
  filter of \<^verbatim>\<open>xrp_track.py\<close> accepts if and only if the date is inside the window. So a
  transaction the tracer returns is inside the window, in both files, and has a positive
  amount in \<^verbatim>\<open>eth_track.py\<close>; and every edge of the graph built from the returned list
  has its weight from such a transaction.\<close>

theorem filter_window_and_amount:
  "(eth_accept sd ed t \<longleftrightarrow>
      sd \<le> tx_timeStamp t \<and> tx_timeStamp t \<le> ed \<and> 0 < eth_amount t) \<and>
   (0 < eth_amount t \<longleftrightarrow> 0 < tx_value t) \<and>
   (eth_trace_transactions net origin sd ed depth max_depth st = Some (Inr txns, st') \<longrightarrow>
      (\<forall>t\<in>set txns. sd \<le> tx_timeStamp t \<and> tx_timeStamp t \<le> ed \<and> 0 < eth_amount t) \<and>
      (\<forall>nl G nl' u v w. eth_build_graph txns nl = Inr (G, nl') \<longrightarrow> edges G (u, v) = Some w \<longrightarrow>
         (\<exists>t\<in>set txns. tx_from t = u \<and> tx_to t = v \<and> eth_amount t = w \<and>
            sd \<le> tx_timeStamp t \<and> tx_timeStamp t \<le> ed \<and> 0 < w))) \<and>
   (xrp_accept sd ed x \<longleftrightarrow> sd \<le> tx_date x \<and> tx_date x \<le> ed) \<and>
   (xrp_trace_transactions xnet origin sd ed depth max_depth st = Some (Inr xtxns, xst') \<longrightarrow>
      (\<forall>t\<in>set xtxns. sd \<le> tx_date t \<and> tx_date t \<le> ed) \<and>
      (\<forall>nl G nl' u v w. xrp_build_graph xtxns nl = Inr (G, nl') \<longrightarrow> edges G (u, v) = Some w \<longrightarrow>
         (\<exists>t\<in>set xtxns. tx_Account t = u \<and> tx_Destination t = Some v \<and>
            map_option xrp_amount (tx_Amount t) = Some w \<and>
            sd \<le> tx_date t \<and> tx_date t \<le> ed)))"
proof (intro conjI)
  show "eth_accept sd ed t \<longleftrightarrow>
      sd \<le> tx_timeStamp t \<and> tx_timeStamp t \<le> ed \<and> 0 < eth_amount t"
    by (simp add: eth_accept_def)
  show "0 < eth_amount t \<longleftrightarrow> 0 < tx_value t"
    by (simp add: eth_amount_def)
  show "xrp_accept sd ed x \<longleftrightarrow> sd \<le> tx_date x \<and> tx_date x \<le> ed"
    by (simp add: xrp_accept_def)
  show "eth_trace_transactions net origin sd ed depth max_depth st = Some (Inr txns, st') \<longrightarrow>
      (\<forall>t\<in>set txns. sd \<le> tx_timeStamp t \<and> tx_timeStamp t \<le> ed \<and> 0 < eth_amount t) \<and>
      (\<forall>nl G nl' u v w. eth_build_graph txns nl = Inr (G, nl') \<longrightarrow> edges G (u, v) = Some w \<longrightarrow>
         (\<exists>t\<in>set txns. tx_from t = u \<and> tx_to t = v \<and> eth_amount t = w \<and>
            sd \<le> tx_timeStamp t \<and> tx_timeStamp t \<le> ed \<and> 0 < w))"
  proof (rule impI, rule conjI)
    assume r: "eth_trace_transactions net origin sd ed depth max_depth st =
        Some (Inr txns, st')"
    show "\<forall>t\<in>set txns. sd \<le> tx_timeStamp t \<and> tx_timeStamp t \<le> ed \<and> 0 < eth_amount t"
    proof
      fix t' assume "t' \<in> set txns"
      from eth_trace_accepts [OF r this]
      show "sd \<le> tx_timeStamp t' \<and> tx_timeStamp t' \<le> ed \<and> 0 < eth_amount t'"
        by (simp add: eth_accept_def)
    qed
    show "\<forall>nl G nl' u v w. eth_build_graph txns nl = Inr (G, nl') \<longrightarrow>
        edges G (u, v) = Some w \<longrightarrow>
        (\<exists>t\<in>set txns. tx_from t = u \<and> tx_to t = v \<and> eth_amount t = w \<and>
           sd \<le> tx_timeStamp t \<and> tx_timeStamp t \<le> ed \<and> 0 < w)"
    proof (intro allI impI)
      fix nl G nl' u v w
      assume b: "eth_build_graph txns nl = Inr (G, nl')" and e: "edges G (u, v) = Some w"
      from eth_build_graph_edge_origin [OF b e] obtain t' where
        t: "t' \<in> set txns" "tx_from t' = u" "tx_to t' = v" "eth_amount t' = w" by blast
      from eth_trace_accepts [OF r t(1)]
      have "sd \<le> tx_timeStamp t' \<and> tx_timeStamp t' \<le> ed \<and> 0 < eth_amount t'"
        by (simp add: eth_accept_def)
      with t show "\<exists>t\<in>set txns. tx_from t = u \<and> tx_to t = v \<and> eth_amount t = w \<and>
          sd \<le> tx_timeStamp t \<and> tx_timeStamp t \<le> ed \<and> 0 < w"
        by (intro bexI [of _ t']) simp_all
    qed
  qed
  show "xrp_trace_transactions xnet origin sd ed depth max_depth st =
        Some (Inr xtxns, xst') \<longrightarrow>
      (\<forall>t\<in>set xtxns. sd \<le> tx_date t \<and> tx_date t \<le> ed) \<and>
      (\<forall>nl G nl' u v w. xrp_build_graph xtxns nl = Inr (G, nl') \<longrightarrow> edges G (u, v) = Some w \<longrightarrow>
         (\<exists>t\<in>set xtxns. tx_Account t = u \<and> tx_Destination t = Some v \<and>
            map_option xrp_amount (tx_Amount t) = Some w \<and>
            sd \<le> tx_date t \<and> tx_date t \<le> ed))"
  proof (rule impI, rule conjI)
    assume r: "xrp_trace_transactions xnet origin sd ed depth max_depth st =
        Some (Inr xtxns, xst')"
    show "\<forall>t\<in>set xtxns. sd \<le> tx_date t \<and> tx_date t \<le> ed"
    proof
      fix t' assume "t' \<in> set xtxns"
      from xrp_trace_accepts [OF r this]
      show "sd \<le> tx_date t' \<and> tx_date t' \<le> ed"
        by (simp add: xrp_accept_def)
    qed
    show "\<forall>nl G nl' u v w. xrp_build_graph xtxns nl = Inr (G, nl') \<longrightarrow>
        edges G (u, v) = Some w \<longrightarrow>
        (\<exists>t\<in>set xtxns. tx_Account t = u \<and> tx_Destination t = Some v \<and>
           map_option xrp_amount (tx_Amount t) = Some w \<and>
           sd \<le> tx_date t \<and> tx_date t \<le> ed)"
    proof (intro allI impI)
      fix nl G nl' u v w
      assume b: "xrp_build_graph xtxns nl = Inr (G, nl')" and e: "edges G (u, v) = Some w"
      from xrp_build_graph_edge_origin [OF b e] obtain t' where
        t: "t' \<in> set xtxns" "tx_Account t' = u" "tx_Destination t' = Some v"
          "map_option xrp_amount (tx_Amount t') = Some w" by blast
      from xrp_trace_accepts [OF r t(1)]
      have "sd \<le> tx_date t' \<and> tx_date t' \<le> ed"
        by (simp add: xrp_accept_def)
      with t show "\<exists>t\<in>set xtxns. tx_Account t = u \<and> tx_Destination t = Some v \<and>
          map_option xrp_amount (tx_Amount t) = Some w \<and> sd \<le> tx_date t \<and> tx_date t \<le> ed"
        by (intro bexI [of _ t']) simp_all
    qed
  qed
qed


theorem filter_window_and_amount_witness:
  "eth_trace_transactions scenario_eth ''A'' 0 10 0 1 (initial_state ''A'') =
     Some (Inr [eth_AB, eth_BD, eth_AC], scenario_final) \<and>
   (0 \<le> tx_timeStamp eth_BD \<and> tx_timeStamp eth_BD \<le> 10 \<and> 0 < eth_amount eth_BD) \<and>
   (\<exists>t\<in>set [eth_AB, eth_BD, eth_AC]. tx_from t = ''B'' \<and> tx_to t = ''D'' \<and>
      eth_amount t = 1 \<and> 0 \<le> tx_timeStamp t \<and> tx_timeStamp t \<le> 10 \<and> 0 < (1::real)) \<and>
   xrp_trace_transactions scenario_xrp ''A'' 0 10 0 1 (initial_state ''A'') =
     Some (Inr [xrp_AB, xrp_BD, xrp_AC], scenario_final) \<and>
   (0 \<le> tx_date xrp_BD \<and> tx_date xrp_BD \<le> 10) \<and>
   (\<exists>t\<in>set [xrp_AB, xrp_BD, xrp_AC]. tx_Account t = ''B'' \<and> tx_Destination t = Some ''D'' \<and>
      map_option xrp_amount (tx_Amount t) = Some 1 \<and> 0 \<le> tx_date t \<and> tx_date t \<le> 10)"
proof -
  note e = filter_window_and_amount
      [THEN conjunct2, THEN conjunct2, THEN conjunct1, rule_format,
       OF scenario_eth_trace_final]
  note x = filter_window_and_amount
      [THEN conjunct2, THEN conjunct2, THEN conjunct2, THEN conjunct2, rule_format,
       OF scenario_xrp_trace_final]
  have be: "edges scenario_graph (''B'', ''D'') = Some 1" by (simp add: scenario_graph_def)
  have e1: "0 \<le> tx_timeStamp eth_BD \<and> tx_timeStamp eth_BD \<le> 10 \<and> 0 < eth_amount eth_BD"
    by (rule e [THEN conjunct1, rule_format]) simp
  have e2: "\<exists>t\<in>set [eth_AB, eth_BD, eth_AC]. tx_from t = ''B'' \<and> tx_to t = ''D'' \<and>
      eth_amount t = 1 \<and> 0 \<le> tx_timeStamp t \<and> tx_timeStamp t \<le> 10 \<and> 0 < (1::real)"
    by (rule e [THEN conjunct2, rule_format, OF scenario_eth_build be])
  have x1: "0 \<le> tx_date xrp_BD \<and> tx_date xrp_BD \<le> 10"
    by (rule x [THEN conjunct1, rule_format]) simp
  have x2: "\<exists>t\<in>set [xrp_AB, xrp_BD, xrp_AC]. tx_Account t = ''B'' \<and>
      tx_Destination t = Some ''D'' \<and> map_option xrp_amount (tx_Amount t) = Some 1 \<and>
      0 \<le> tx_date t \<and> tx_date t \<le> 10"
    by (rule x [THEN conjunct2, rule_format, OF scenario_xrp_build be])
  show ?thesis
    apply (intro conjI)
         apply (rule scenario_eth_trace_final)
        apply (rule e1 [THEN conjunct1])
       apply (rule e1 [THEN conjunct2, THEN conjunct1])
      apply (rule e1 [THEN conjunct2, THEN conjunct2])
     apply (rule e2)
    apply (rule scenario_xrp_trace_final)
      apply (rule x1 [THEN conjunct1])
     apply (rule x1 [THEN conjunct2])
    apply (rule x2)
    done
qed

lemma fetch_once_traced:
  assumes "fetch_once s s'" and "fetches s' = fetches s @ new" and "(a, d) \<in> set new"
  shows "a \<in> traced s'"
proof -
  from assms(1) obtain n where n: "fetches s' = fetches s @ n"
    "traced s' = traced s \<union> fst ` set n"
    unfolding fetch_once_def by (elim exE conjE)
  from n(1) assms(2) have "n = new" by simp
  with assms(3) have "a \<in> fst ` set n" by (metis fst_conv image_eqI)
  with n(2) show ?thesis by simp
qed

lemma levels_kept_traced:
  "levels_kept s s' \<Longrightarrow> a \<in> traced s \<Longrightarrow> map_of (node_levels s') a = map_of (node_levels s) a"
  unfolding levels_kept_def by (elim conjE) (rule bspec)

text \<open>An account that was expanded has the depth of its expansion as level, if that held
  of the account the outermost call was for.\<close>

lemma scheme_expanded_levels:
  "trace_scheme fetch target account depth max_depth st = Some (r, st') \<Longrightarrow>
     map_of (node_levels st) account = Some depth \<Longrightarrow>
     fetches st' = fetches st @ new \<Longrightarrow> (a, d) \<in> set new \<Longrightarrow>
     map_of (node_levels st') a = Some d"
  "loop_scheme fetch target depth max_depth todo acc st = Some (r, st') \<Longrightarrow>
     fetches st' = fetches st @ new \<Longrightarrow> (a, d) \<in> set new \<Longrightarrow>
     map_of (node_levels st') a = Some d"
proof (induction fetch target account depth max_depth st
    and fetch target depth max_depth todo acc st
    arbitrary: r st' new and r st' new rule: trace_scheme_loop_scheme.induct)
  case (1 fetch target account depth max_depth st)
  from "1.prems"(1) show ?case
  proof (cases rule: trace_scheme_cases)
    case skip
    with "1.prems"(3,4) show ?thesis by simp
  next
    case (raises err0)
    with "1.prems"(3) have "new = [(account, depth)]" by simp
    with "1.prems"(4) have "a = account" "d = depth" by simp_all
    with "1.prems"(2) raises(4) show ?thesis by simp
  next
    case (loop txns)
    let ?st1 = "st\<lparr>traced := insert account (traced st),
        fetches := fetches st @ [(account, depth)]\<rparr>"
    from loop_scheme_fetch_once [OF loop(3), THEN fetch_once_log]
    obtain n1 where n1: "fetches st' = fetches ?st1 @ n1" by (elim exE)
    with "1.prems"(3) have new: "new = (account, depth) # n1" by simp
    show ?thesis
    proof (cases "(a, d) = (account, depth)")
      case True
      have "account \<in> traced ?st1" by simp
      from levels_kept_traced [OF loop_scheme_levels_kept [OF loop(3)] this]
      have "map_of (node_levels st') account = map_of (node_levels st) account" by simp
      with True "1.prems"(2) show ?thesis by simp
    next
      case False
      with "1.prems"(4) new have "(a, d) \<in> set n1" by auto
      from "1.IH" [OF loop(1) refl loop(2) refl loop(3) n1 this] show ?thesis .
    qed
  qed
next
  case (2 fetch target depth max_depth acc st)
  then show ?case by simp
next
  case (3 fetch target depth max_depth txn rest acc st)
  from "3.prems"(1) show ?case
  proof (cases rule: loop_scheme_cases)
    case skip
    from skip(1) show ?thesis
    proof
      assume n: "target txn = None"
      from "3.IH"(1) [OF n skip(2) "3.prems"(2,3)] show ?thesis .
    next
      assume "\<exists>d. target txn = Some d \<and> d \<in> traced st"
      then obtain b where b: "target txn = Some b" "b \<in> traced st" by blast
      from "3.IH"(4) [OF b(1) _ skip(2) "3.prems"(2,3)] b(2) show ?thesis by simp
    qed
  next
    case (raises destination err0)
    let ?st1 = "st\<lparr>node_levels := AList.update destination (depth + 1) (node_levels st)\<rparr>"
    have l: "map_of (node_levels ?st1) destination = Some (depth + 1)"
      by (simp add: update_conv')
    have "fetches st' = fetches ?st1 @ new" using "3.prems"(2) by simp
    from "3.IH"(2) [OF raises(1,2) refl raises(3) l this "3.prems"(3)]
    show ?thesis .
  next
    case (continues destination sub st2)
    let ?st1 = "st\<lparr>node_levels := AList.update destination (depth + 1) (node_levels st)\<rparr>"
    have l: "map_of (node_levels ?st1) destination = Some (depth + 1)"
      by (simp add: update_conv')
    note f12 = trace_scheme_fetch_once [OF continues(3)]
    from f12 [THEN fetch_once_log]
    obtain n1 where n1: "fetches st2 = fetches ?st1 @ n1" by (elim exE)
    from loop_scheme_fetch_once [OF continues(4), THEN fetch_once_log]
    obtain n2 where n2: "fetches st' = fetches st2 @ n2" by (elim exE)
    from n1 n2 "3.prems"(2) have new: "new = n1 @ n2" by simp
    show ?thesis
    proof (cases "(a, d) \<in> set n1")
      case True
      from "3.IH"(2) [OF continues(1,2) refl continues(3) l n1 True]
      have m: "map_of (node_levels st2) a = Some d" .
      have "a \<in> traced st2" using f12 n1 True by (rule fetch_once_traced)
      from levels_kept_traced [OF loop_scheme_levels_kept [OF continues(4)] this] m
      show ?thesis by simp
    next
      case False
      with "3.prems"(3) new have "(a, d) \<in> set n2" by simp
      from "3.IH"(3) [OF continues(1,2) refl continues(3) refl refl continues(4) n2 this]
      show ?thesis .
    qed
  qed
qed

lemma revisit_eth_fetch:
  "eth_fetch_all_transactions revisit_eth account 0 10 depth max_depth =
     Some (Inr (if account = ''A'' then [eth_AB, eth_AD]
                else if account = ''B'' then [eth_AB, eth_BD]
                else if account = ''D'' then [eth_AD, eth_BD] else []))"
proof -
  let ?h = "if account = ''A'' then [eth_AB, eth_AD]
            else if account = ''B'' then [eth_AB, eth_BD]
            else if account = ''D'' then [eth_AD, eth_BD] else []"
  have g: "eth_get_transactions revisit_eth account 1 =
      Some \<lparr>outcome = Inr \<lparr>status = ''1'', result = ?h\<rparr>, sleeps = [], requests = 1\<rparr>"
    unfolding eth_get_transactions_def
    by (subst eth_get_loop_answer [where code = 200])
       (simp_all add: revisit_eth_def raises_for_status_def)
  have f: "filter (eth_accept 0 10) ?h = ?h"
    by (simp add: eth_accept_def eth_amount_def eth_AB_def eth_AD_def eth_BD_def eth_tx_def)
  have len: "length ?h < 10000" by simp
  show ?thesis
    unfolding eth_fetch_all_transactions_def
    by (subst eth_fetch_pages.simps) (simp add: g f len)
qed

lemma revisit_xrp_fetch:
  "xrp_fetch_all_transactions revisit_xrp account 0 10 depth max_depth =
     Some (Inr (if account = ''A'' then [xrp_AB, xrp_AD]
                else if account = ''B'' then [xrp_AB, xrp_BD]
                else if account = ''D'' then [xrp_AD, xrp_BD] else []))"
proof -
  let ?h = "if account = ''A'' then [xrp_AB, xrp_AD]
            else if account = ''B'' then [xrp_AB, xrp_BD]
            else if account = ''D'' then [xrp_AD, xrp_BD] else []"
  have g: "xrp_get_transactions revisit_xrp account None 5 =
      Some \<lparr>outcome = Inr \<lparr>transactions = ?h, marker = None\<rparr>, sleeps = [], requests = 1\<rparr>"
    unfolding xrp_get_transactions_def
    by (subst xrp_get_loop_answer [where code = 200])
       (simp_all add: revisit_xrp_def raises_for_status_def sent_marker_def)
  have f: "filter (xrp_accept 0 10) ?h = ?h"
    by (simp add: xrp_accept_def xrp_AB_def xrp_AD_def xrp_BD_def xrp_tx_def)
  show ?thesis
    unfolding xrp_fetch_all_transactions_def
    by (subst xrp_fetch_pages.simps) (simp add: g f)
qed

lemma revisit_eth_trace_B:
  "eth_trace_transactions revisit_eth ''B'' 0 10 1 1 revisit_before_B =
     Some (Inr [eth_BD], revisit_after_B)"
  by (simp add: revisit_eth_fetch revisit_before_B_def revisit_after_B_def eth_AB_def
      eth_AD_def eth_BD_def eth_tx_def eth_amount_def insert_commute Let_def)

lemma revisit_eth_trace:
  "eth_trace_transactions revisit_eth ''A'' 0 10 0 1 (initial_state ''A'') =
     Some (Inr [eth_AB, eth_BD, eth_AD], revisit_final)"
  by (simp add: revisit_eth_fetch initial_state_def revisit_final_def eth_AB_def
      eth_AD_def eth_BD_def eth_tx_def eth_amount_def insert_commute Let_def)

lemma revisit_xrp_trace_B:
  "xrp_trace_transactions revisit_xrp ''B'' 0 10 1 1 revisit_before_B =
     Some (Inr [xrp_BD], revisit_after_B)"
  by (simp add: revisit_xrp_fetch revisit_before_B_def revisit_after_B_def xrp_AB_def
      xrp_AD_def xrp_BD_def xrp_tx_def insert_commute Let_def)

lemma revisit_xrp_trace:
  "xrp_trace_transactions revisit_xrp ''A'' 0 10 0 1 (initial_state ''A'') =
     Some (Inr [xrp_AB, xrp_BD, xrp_AD], revisit_final)"
  by (simp add: revisit_xrp_fetch initial_state_def revisit_final_def xrp_AB_def
      xrp_AD_def xrp_BD_def xrp_tx_def insert_commute Let_def)

text \<open>C3, as stated, fails. On the ledger with \<open>A \<rightarrow> B\<close>, \<open>A \<rightarrow> D\<close>, \<open>B \<rightarrow> D\<close> and
  \<^verbatim>\<open>max_depth=1\<close> the call for \<open>B\<close>, made by the loop of the call for \<open>A\<close>, discovers
  \<open>D\<close> first and gives it level 2, without adding it to \<^verbatim>\<open>traced\<close>; the loop then
  discovers \<open>D\<close> again and overwrites its level with 1.\<close>

theorem level_overwritten_counterexample:
  "eth_trace_transactions revisit_eth ''B'' 0 10 1 1 revisit_before_B =
     Some (Inr [eth_BD], revisit_after_B) \<and>
   xrp_trace_transactions revisit_xrp ''B'' 0 10 1 1 revisit_before_B =
     Some (Inr [xrp_BD], revisit_after_B) \<and>
   map_of (node_levels revisit_after_B) ''D'' = Some 2 \<and>
   eth_trace_transactions revisit_eth ''A'' 0 10 0 1 (initial_state ''A'') =
     Some (Inr [eth_AB, eth_BD, eth_AD], revisit_final) \<and>
   xrp_trace_transactions revisit_xrp ''A'' 0 10 0 1 (initial_state ''A'') =
     Some (Inr [xrp_AB, xrp_BD, xrp_AD], revisit_final) \<and>
   map_of (node_levels revisit_final) ''D'' = Some 1"
proof -
  have "map_of (node_levels revisit_after_B) ''D'' = Some 2"
    by (simp add: revisit_after_B_def)
  moreover have "map_of (node_levels revisit_final) ''D'' = Some 1"
    by (simp add: revisit_final_def)
  ultimately show ?thesis
    using revisit_eth_trace_B revisit_xrp_trace_B revisit_eth_trace revisit_xrp_trace
    by simp
qed

text \<open>C3, amended. The level of an account is assigned at every discovery made while the
  account is not in \<^verbatim>\<open>traced\<close>. Once an account is in \<^verbatim>\<open>traced\<close>, no later discovery
  overwrites its level: a call of the tracer leaves the level of every account that was in
  \<^verbatim>\<open>traced\<close> before it. And when the call is for an account whose level is the depth of
  the call, as every call the loop makes is, every account expanded during the call has the
  depth of its expansion as its level afterwards.\<close>

theorem expanded_levels_are_final:
  "(eth_trace_transactions net origin sd ed depth max_depth st = Some (r, st') \<longrightarrow>
      (\<forall>a\<in>traced st. map_of (node_levels st') a = map_of (node_levels st) a) \<and>
      (map_of (node_levels st) origin = Some depth \<longrightarrow>
         (\<forall>new a d. fetches st' = fetches st @ new \<longrightarrow> (a, d) \<in> set new \<longrightarrow>
            map_of (node_levels st') a = Some d))) \<and>
   (xrp_trace_transactions xnet origin sd ed depth max_depth st = Some (xr, xst') \<longrightarrow>
      (\<forall>a\<in>traced st. map_of (node_levels xst') a = map_of (node_levels st) a) \<and>
      (map_of (node_levels st) origin = Some depth \<longrightarrow>
         (\<forall>new a d. fetches xst' = fetches st @ new \<longrightarrow> (a, d) \<in> set new \<longrightarrow>
            map_of (node_levels xst') a = Some d)))"
proof (intro conjI)
  show "eth_trace_transactions net origin sd ed depth max_depth st = Some (r, st') \<longrightarrow>
      (\<forall>a\<in>traced st. map_of (node_levels st') a = map_of (node_levels st) a) \<and>
      (map_of (node_levels st) origin = Some depth \<longrightarrow>
         (\<forall>new a d. fetches st' = fetches st @ new \<longrightarrow> (a, d) \<in> set new \<longrightarrow>
            map_of (node_levels st') a = Some d))"
  proof (rule impI, rule conjI)
    assume "eth_trace_transactions net origin sd ed depth max_depth st = Some (r, st')"
    then have s: "trace_scheme (\<lambda>a d. eth_fetch_all_transactions net a sd ed d max_depth)
        eth_target origin depth max_depth st = Some (r, st')"
      by (simp only: eth_trace_is_scheme(1))
    show "\<forall>a\<in>traced st. map_of (node_levels st') a = map_of (node_levels st) a"
    proof
      fix a assume "a \<in> traced st"
      with trace_scheme_levels_kept [OF s]
      show "map_of (node_levels st') a = map_of (node_levels st) a"
        by (rule levels_kept_traced)
    qed
    show "map_of (node_levels st) origin = Some depth \<longrightarrow>
        (\<forall>new a d. fetches st' = fetches st @ new \<longrightarrow> (a, d) \<in> set new \<longrightarrow>
           map_of (node_levels st') a = Some d)"
    proof (intro impI allI)
      fix new a d
      assume "map_of (node_levels st) origin = Some depth" "fetches st' = fetches st @ new"
        "(a, d) \<in> set new"
      with s show "map_of (node_levels st') a = Some d"
        by (rule scheme_expanded_levels(1))
    qed
  qed
  show "xrp_trace_transactions xnet origin sd ed depth max_depth st = Some (xr, xst') \<longrightarrow>
      (\<forall>a\<in>traced st. map_of (node_levels xst') a = map_of (node_levels st) a) \<and>
      (map_of (node_levels st) origin = Some depth \<longrightarrow>
         (\<forall>new a d. fetches xst' = fetches st @ new \<longrightarrow> (a, d) \<in> set new \<longrightarrow>
            map_of (node_levels xst') a = Some d))"
  proof (rule impI, rule conjI)
    assume "xrp_trace_transactions xnet origin sd ed depth max_depth st = Some (xr, xst')"
    then have s: "trace_scheme (\<lambda>a d. xrp_fetch_all_transactions xnet a sd ed d max_depth)
        xrp_target origin depth max_depth st = Some (xr, xst')"
      by (simp only: xrp_trace_is_scheme(1))
    show "\<forall>a\<in>traced st. map_of (node_levels xst') a = map_of (node_levels st) a"
    proof
      fix a assume "a \<in> traced st"
      with trace_scheme_levels_kept [OF s]
      show "map_of (node_levels xst') a = map_of (node_levels st) a"
        by (rule levels_kept_traced)
    qed
    show "map_of (node_levels st) origin = Some depth \<longrightarrow>
        (\<forall>new a d. fetches xst' = fetches st @ new \<longrightarrow> (a, d) \<in> set new \<longrightarrow>
           map_of (node_levels xst') a = Some d)"
    proof (intro impI allI)
      fix new a d
      assume "map_of (node_levels st) origin = Some depth" "fetches xst' = fetches st @ new"
        "(a, d) \<in> set new"
      with s show "map_of (node_levels xst') a = Some d"
        by (rule scheme_expanded_levels(1))
    qed
  qed
qed

theorem expanded_levels_are_final_witness:
  "eth_trace_transactions revisit_eth ''B'' 0 10 1 1 revisit_before_B =
     Some (Inr [eth_BD], revisit_after_B) \<and>
   xrp_trace_transactions revisit_xrp ''B'' 0 10 1 1 revisit_before_B =
     Some (Inr [xrp_BD], revisit_after_B) \<and>
   ''A'' \<in> traced revisit_before_B \<and>
   map_of (node_levels revisit_after_B) ''A'' = map_of (node_levels revisit_before_B) ''A'' \<and>
   map_of (node_levels revisit_before_B) ''B'' = Some 1 \<and>
   fetches revisit_after_B = fetches revisit_before_B @ [(''B'', 1)] \<and>
   map_of (node_levels revisit_after_B) ''B'' = Some 1"
proof -
  note e = expanded_levels_are_final [THEN conjunct1, rule_format, OF revisit_eth_trace_B]
  note x = expanded_levels_are_final [THEN conjunct2, rule_format, OF revisit_xrp_trace_B]
  have a: "''A'' \<in> traced revisit_before_B" by (simp add: revisit_before_B_def)
  have b: "map_of (node_levels revisit_before_B) ''B'' = Some 1"
    by (simp add: revisit_before_B_def)
  have f: "fetches revisit_after_B = fetches revisit_before_B @ [(''B'', 1)]"
    by (simp add: revisit_before_B_def revisit_after_B_def)
  have m: "(''B'', 1::int) \<in> set [(''B'', 1)]" by simp
  have e1: "map_of (node_levels revisit_after_B) ''A'' =
      map_of (node_levels revisit_before_B) ''A''"
    by (rule e [THEN conjunct1, rule_format, OF a])
  have e2: "map_of (node_levels revisit_after_B) ''B'' = Some 1"
    by (rule e [THEN conjunct2, rule_format, OF b f m])
  have x1: "map_of (node_levels revisit_after_B) ''A'' =
      map_of (node_levels revisit_before_B) ''A''"
    by (rule x [THEN conjunct1, rule_format, OF a])
  have x2: "map_of (node_levels revisit_after_B) ''B'' = Some 1"
    by (rule x [THEN conjunct2, rule_format, OF b f m])
  from revisit_eth_trace_B revisit_xrp_trace_B a e1 x1 b f e2 x2 show ?thesis
    by (intro conjI)
qed


lemma within_hops_Suc: "within_hops fetch target n a b \<Longrightarrow> within_hops fetch target (Suc n) a b"
proof (induction n arbitrary: a)
  case 0
  then show ?case by simp
next
  case (Suc n)
  from Suc.prems have "a = b \<or> (\<exists>c. hop fetch target a c \<and> within_hops fetch target n c b)"
    by simp
  then show ?case
  proof
    assume "a = b"
    then show ?thesis by simp
  next
    assume "\<exists>c. hop fetch target a c \<and> within_hops fetch target n c b"
    then obtain c where c: "hop fetch target a c" "within_hops fetch target n c b" by blast
    from Suc.IH [OF c(2)] c(1) show ?thesis
      by (subst within_hops.simps(2)) blast
  qed
qed














lemma group_levels_distinct:
  "distinct (map fst acc) \<Longrightarrow> distinct (map fst (group_levels xs acc))"
  by (induction xs arbitrary: acc) (auto simp: AList.distinct_update)

lemma group_levels_map_of:
  "map_of (group_levels xs acc) l =
     (if l \<in> snd ` set xs \<or> l \<in> keys acc
      then Some ((case map_of acc l of None \<Rightarrow> [] | Some ns \<Rightarrow> ns) @
                 map fst (filter (\<lambda>p. snd p = l) xs))
      else None)"
proof (induction xs arbitrary: acc)
  case Nil
  show ?case
  proof (cases "map_of acc l")
    case None
    then show ?thesis by (simp add: map_of_None_keys)
  next
    case (Some ns)
    then have "l \<in> keys acc" using map_of_None_keys [of acc l] by simp
    with Some show ?thesis by simp
  qed
next
  case (Cons x xs)
  obtain node level where x: "x = (node, level)" by (cases x)
  let ?old = "case map_of acc level of None \<Rightarrow> [] | Some ns \<Rightarrow> ns"
  let ?acc = "AList.update level (?old @ [node]) acc"
  have k: "keys ?acc = insert level (keys acc)" by (rule keys_update)
  have m: "map_of ?acc l = (if l = level then Some (?old @ [node]) else map_of acc l)"
    by (simp add: AList.update_conv')
  show ?case
  proof (cases "l = level")
    case True
    show ?thesis unfolding x group_levels.simps Cons.IH k m using True by simp
  next
    case False
    show ?thesis unfolding x group_levels.simps Cons.IH k m using False by simp
  qed
qed


lemma group_levels_map_of_empty:
  "map_of (group_levels xs []) l =
     (if l \<in> snd ` set xs then Some (map fst (filter (\<lambda>p. snd p = l) xs)) else None)"
  unfolding group_levels_map_of by (simp add: keys_def)

lemma group_levels_group:
  assumes "(l, ns) \<in> set (group_levels xs [])"
  shows "ns = map fst (filter (\<lambda>p. snd p = l) xs)" and "ns \<noteq> []"
proof -
  have "distinct (map fst (group_levels xs []))" by (rule group_levels_distinct) simp
  with assms have "map_of (group_levels xs []) l = Some ns" by simp
  then have *: "(if l \<in> snd ` set xs then Some (map fst (filter (\<lambda>p. snd p = l) xs)) else None)
      = Some ns"
    by (simp only: group_levels_map_of_empty)
  then have l: "l \<in> snd ` set xs" by (simp split: if_splits)
  with * show ns: "ns = map fst (filter (\<lambda>p. snd p = l) xs)" by simp
  from l obtain p where "p \<in> set xs" "snd p = l" by auto
  then have "p \<in> set (filter (\<lambda>p. snd p = l) xs)" by simp
  then have "filter (\<lambda>p. snd p = l) xs \<noteq> []" by (metis empty_iff empty_set)
  then show "ns \<noteq> []" unfolding ns by simp
qed

lemma group_levels_has_group:
  assumes "(n, l) \<in> set xs"
  shows "l \<in> fst ` set (group_levels xs [])"
proof -
  from assms have "l \<in> snd ` set xs" by force
  then have "map_of (group_levels xs []) l \<noteq> None" by (simp add: group_levels_map_of_empty)
  then show ?thesis by (simp add: map_of_eq_None_iff)
qed

lemma place_ranked_other:
  "m \<notin> set ns \<Longrightarrow> map_of (place_ranked level ns i pos) m = map_of pos m"
  by (induction ns arbitrary: i pos) (simp_all add: AList.update_conv')

lemma place_levels_other:
  assumes "\<forall>(l, ns)\<in>set g. ns \<noteq> [] \<and> (if l = 0 then hd ns \<noteq> m else m \<notin> set ns)"
  shows "\<exists>pos'. place_levels G g pos = Inr pos' \<and> map_of pos' m = map_of pos m"
  using assms
proof (induction g arbitrary: pos)
  case Nil
  then show ?case by simp
next
  case (Cons x g)
  obtain l ns where x: "x = (l, ns)" by (cases x)
  from Cons.prems have rest: "\<forall>(l, ns)\<in>set g. ns \<noteq> [] \<and> (if l = 0 then hd ns \<noteq> m else m \<notin> set ns)"
    by simp
  from Cons.prems x have ne: "ns \<noteq> []" and h: "if l = 0 then hd ns \<noteq> m else m \<notin> set ns"
    by simp_all
  show ?case
  proof (cases "l = 0")
    case True
    from ne obtain n ns' where ns: "ns = n # ns'" by (cases ns) auto
    with h True have nm: "n \<noteq> m" by simp
    from Cons.IH [OF rest, of "AList.update n (0, 0) pos"]
    obtain pos' where "place_levels G g (AList.update n (0, 0) pos) = Inr pos'"
      "map_of pos' m = map_of (AList.update n (0, 0) pos) m" by (elim exE conjE)
    with nm show ?thesis unfolding x ns using True by (simp add: AList.update_conv')
  next
    case False
    let ?pos = "place_ranked l (sort_key (\<lambda>n. - inbound_weight G n) ns) 0 pos"
    from h False have "m \<notin> set (sort_key (\<lambda>n. - inbound_weight G n) ns)" by simp
    then have k: "map_of ?pos m = map_of pos m" by (rule place_ranked_other)
    from Cons.IH [OF rest, of ?pos]
    obtain pos' where "place_levels G g ?pos = Inr pos'" "map_of pos' m = map_of ?pos m"
      by (elim exE conjE)
    with k show ?thesis unfolding x using False by simp
  qed
qed

lemma place_levels_pinned:
  assumes "\<forall>(l, ns)\<in>set g. ns \<noteq> [] \<and> (if l = 0 then hd ns = n else n \<notin> set ns)"
    and "map_of pos n = Some (0, 0) \<or> 0 \<in> fst ` set g"
  shows "\<exists>pos'. place_levels G g pos = Inr pos' \<and> map_of pos' n = Some (0, 0)"
  using assms
proof (induction g arbitrary: pos)
  case Nil
  then show ?case by simp
next
  case (Cons x g)
  obtain l ns where x: "x = (l, ns)" by (cases x)
  from Cons.prems(1)
  have rest: "\<forall>(l, ns)\<in>set g. ns \<noteq> [] \<and> (if l = 0 then hd ns = n else n \<notin> set ns)"
    by simp
  from Cons.prems(1) x have ne: "ns \<noteq> []" and h: "if l = 0 then hd ns = n else n \<notin> set ns"
    by simp_all
  show ?case
  proof (cases "l = 0")
    case True
    from ne obtain n' ns' where ns: "ns = n' # ns'" by (cases ns) auto
    with h True have nm: "n' = n" by simp
    have "map_of (AList.update n (0, 0) pos) n = Some (0, 0)" by (simp add: AList.update_conv')
    then have "map_of (AList.update n (0, 0) pos) n = Some (0, 0) \<or> 0 \<in> fst ` set g" ..
    from Cons.IH [OF rest this]
    obtain pos' where "place_levels G g (AList.update n (0, 0) pos) = Inr pos'"
      "map_of pos' n = Some (0, 0)" by (elim exE conjE)
    then show ?thesis unfolding x ns nm using True by simp
  next
    case False
    let ?pos = "place_ranked l (sort_key (\<lambda>n. - inbound_weight G n) ns) 0 pos"
    from h False have "n \<notin> set (sort_key (\<lambda>n. - inbound_weight G n) ns)" by simp
    then have k: "map_of ?pos n = map_of pos n" by (rule place_ranked_other)
    from Cons.prems(2) x False have "map_of pos n = Some (0, 0) \<or> 0 \<in> fst ` set g" by simp
    with k have "map_of ?pos n = Some (0, 0) \<or> 0 \<in> fst ` set g" by simp
    from Cons.IH [OF rest this]
    obtain pos' where "place_levels G g ?pos = Inr pos'" "map_of pos' n = Some (0, 0)"
      by (elim exE conjE)
    then show ?thesis unfolding x using False by simp
  qed
qed

lemma find_filter_hd:
  "find P xs = Some x \<Longrightarrow> \<exists>ys. filter P xs = x # ys"
  by (induction xs) (auto split: if_splits)

lemma perturb_keys: "keys (perturb rnd k pos) = keys pos"
  by (induction rnd k pos rule: perturb.induct) (simp_all add: keys_def)

lemma two_origins_eth_build:
  "eth_build_graph [eth_AC, eth_BC] unleveled_source = Inr (two_origins_graph, two_origins)"
proof -
  have "eth_build_graph [eth_AC, eth_BC] unleveled_source =
      Inr (\<lparr>nodes = [''A'', ''C'', ''B''],
             subset_key = [''A'' \<mapsto> 0, ''C'' \<mapsto> 1, ''B'' \<mapsto> 0, ''C'' \<mapsto> 1],
             edges = [(''A'', ''C'') \<mapsto> 3, (''B'', ''C'') \<mapsto> 2]\<rparr>,
           two_origins)"
    by (simp add: eth_build_graph_def unleveled_source_def two_origins_def eth_AC_def eth_BC_def
        eth_tx_def eth_amount_def keys_def Let_def empty_graph_def add_edge_def add_node_def
        set_subset_key_def)
  moreover have "[''A'' \<mapsto> 0, ''C'' \<mapsto> 1, ''B'' \<mapsto> 0, ''C'' \<mapsto> 1] =
      [''A'' \<mapsto> 0::int, ''C'' \<mapsto> 1, ''B'' \<mapsto> 0]"
    by (rule ext) simp
  ultimately show ?thesis by (simp add: two_origins_graph_def)
qed

lemma two_origins_xrp_build:
  "xrp_build_graph [xrp_AC, xrp_BC] unleveled_source = Inr (two_origins_graph, two_origins)"
proof -
  have "xrp_build_graph [xrp_AC, xrp_BC] unleveled_source =
      Inr (\<lparr>nodes = [''A'', ''C'', ''B''],
             subset_key = [''A'' \<mapsto> 0, ''C'' \<mapsto> 1, ''B'' \<mapsto> 0, ''C'' \<mapsto> 1],
             edges = [(''A'', ''C'') \<mapsto> 3, (''B'', ''C'') \<mapsto> 2]\<rparr>,
           two_origins)"
    by (simp add: xrp_build_graph_def unleveled_source_def two_origins_def xrp_AC_def xrp_BC_def
        xrp_tx_def xrp_amount_def keys_def Let_def empty_graph_def add_edge_def add_node_def
        set_subset_key_def)
  moreover have "[''A'' \<mapsto> 0, ''C'' \<mapsto> 1, ''B'' \<mapsto> 0, ''C'' \<mapsto> 1] =
      [''A'' \<mapsto> 0::int, ''C'' \<mapsto> 1, ''B'' \<mapsto> 0]"
    by (rule ext) simp
  ultimately show ?thesis by (simp add: two_origins_graph_def)
qed

lemma two_origins_layout:
  "layout_pass two_origins_graph two_origins = Inr [(''A'', 0, 0), (''C'', 1, 0)]"
  by (simp add: layout_pass_def two_origins_def)

lemma two_origins_perturb:
  "perturb rnd 0 [(''A'', 0, 0), (''C'', 1, 0)] =
     [(''A'', rnd 0 (- 0.05) 0.05, rnd 1 (- 0.05) 0.05),
      (''C'', 1 + rnd 2 (- 0.05) 0.05, rnd 3 (- 0.05) 0.05)]"
  by (simp add: numeral_2_eq_2 numeral_3_eq_3)

lemma two_origins_remaining:
  "remaining_nodes two_origins_graph (perturb rnd 0 [(''A'', 0, 0), (''C'', 1, 0)]) = [''B'']"
  by (simp add: remaining_nodes_def two_origins_graph_def keys_def)

lemma two_origins_eth_visualize:
  "eth_visualize_pos rnd two_origins_graph two_origins =
     Inr [(''A'', rnd 0 (- 0.05) 0.05, rnd 1 (- 0.05) 0.05),
          (''C'', 1 + rnd 2 (- 0.05) 0.05, rnd 3 (- 0.05) 0.05),
          (''B'', rnd 4 0 2, rnd 5 (- 3 / 2) (3 / 2))]"
proof -
  have m: "Max (set (map snd two_origins)) = 1" by (simp add: two_origins_def)
  have l: "length (nodes two_origins_graph) = 3" by (simp add: two_origins_graph_def)
  have n: "two_origins \<noteq> []" by (simp add: two_origins_def)
  have "eth_visualize_pos rnd two_origins_graph two_origins =
      Inr (place_remaining rnd (2 * length (perturb rnd 0 [(''A'', 0, 0), (''C'', 1, 0)])) 1
             two_origins_graph [''B''] (perturb rnd 0 [(''A'', 0, 0), (''C'', 1, 0)]))"
    using n by (simp only: eth_visualize_pos_def Let_def two_origins_layout
        two_origins_remaining m if_False sum.case)
  also have "2 * length (perturb rnd 0 [(''A'', 0, 0), (''C'', 1, 0)]) = 4"
    unfolding two_origins_perturb by simp
  also have "place_remaining rnd 4 1 two_origins_graph [''B'']
      (perturb rnd 0 [(''A'', 0, 0), (''C'', 1, 0)]) =
     [(''A'', rnd 0 (- 0.05) 0.05, rnd 1 (- 0.05) 0.05),
      (''C'', 1 + rnd 2 (- 0.05) 0.05, rnd 3 (- 0.05) 0.05),
      (''B'', rnd 4 0 2, rnd 5 (- 3 / 2) (3 / 2))]"
    unfolding two_origins_perturb by (simp add: l eval_nat_numeral)
  finally show ?thesis .
qed

lemma two_origins_xrp_visualize:
  "xrp_visualize_pos rnd two_origins_graph two_origins =
     Inr [(''A'', rnd 0 (- 0.05) 0.05, rnd 1 (- 0.05) 0.05),
          (''C'', 1 + rnd 2 (- 0.05) 0.05, rnd 3 (- 0.05) 0.05)]"
proof -
  have n: "two_origins \<noteq> []" by (simp add: two_origins_def)
  have "xrp_visualize_pos rnd two_origins_graph two_origins =
      Inr (perturb rnd 0 [(''A'', 0, 0), (''C'', 1, 0)])"
    using n by (simp only: xrp_visualize_pos_def two_origins_layout if_False sum.case)
  then show ?thesis unfolding two_origins_perturb .
qed

end
